theory Spec2Isabelle
  imports Main "HOL-Library.Word"
begin

unbundle bit_operations_syntax

section \<open>Values of the host language\<close>

text \<open>
  The password vault keeps every field of a record as an envelope made by
  \<^verbatim>\<open>src/lib/crypto.ts\<close>; \<^verbatim>\<open>src/context/AuthContext.tsx\<close> holds the session and verifies a
  master key, and \<^verbatim>\<open>src/components/Dashboard.tsx\<close> loads the vault. The code is written
  against the browser platform: strings are sequences of 16-bit code units, typed arrays
  are sequences of bytes, and every failure is an exception. The first part of this theory
  gives the platform functions the code calls, each from its standard; the second the
  functions of the repository, statement by statement; the third their properties.

  Exceptions are values of \<open>js_error\<close>: \<open>InvalidCharacterError\<close> is the
  \<^verbatim>\<open>DOMException\<close> of \<^verbatim>\<open>atob\<close> and \<^verbatim>\<open>btoa\<close>, \<open>OperationError\<close> the one of
  \<^verbatim>\<open>crypto.subtle\<close>. The source declares no error class of its own. The limits of an
  engine (the longest string, the longest argument list of a spread call) are not part of
  the model.
\<close>

type_synonym byte = "8 word"
type_synonym code_unit = "16 word"
type_synonym js_string = "code_unit list"
type_synonym Uint8Array = "byte list"

datatype js_error = InvalidCharacterError | OperationError

text \<open>An \<^verbatim>\<open>await\<close> whose promise is rejected throws, and nothing after it runs:
  \<open>then_result r f\<close> continues with \<open>f\<close> only on a fulfilled \<open>r\<close>.\<close>

definition then_result :: "'e + 'a \<Rightarrow> ('a \<Rightarrow> 'e + 'b) \<Rightarrow> 'e + 'b" where
  "then_result r f = (case r of Inl e \<Rightarrow> Inl e | Inr v \<Rightarrow> f v)"

text \<open>\<^verbatim>\<open>String.fromCharCode(b)\<close> for a byte, and \<^verbatim>\<open>c.charCodeAt(0)\<close> stored into a
  \<^verbatim>\<open>Uint8Array\<close> (which keeps the low eight bits).\<close>

definition fromCharCode :: "byte \<Rightarrow> code_unit" where
  "fromCharCode b = ucast b"

definition charCodeAt0 :: "code_unit \<Rightarrow> byte" where
  "charCodeAt0 c = ucast c"

section \<open>Base64: \<^verbatim>\<open>btoa\<close> and \<^verbatim>\<open>atob\<close>\<close>

definition b64_code :: "nat \<Rightarrow> nat" where
  "b64_code n = (if n < 26 then 65 + n else if n < 52 then 71 + n
                 else if n < 62 then n - 4 else if n = 62 then 43 else 47)"

definition b64_char :: "nat \<Rightarrow> code_unit" where
  "b64_char n = of_nat (b64_code n)"

definition b64_index :: "code_unit \<Rightarrow> nat option" where
  "b64_index c = (let k = unat c in
     if 65 \<le> k \<and> k \<le> 90 then Some (k - 65)
     else if 97 \<le> k \<and> k \<le> 122 then Some (k - 71)
     else if 48 \<le> k \<and> k \<le> 57 then Some (k + 4)
     else if k = 43 then Some 62
     else if k = 47 then Some 63
     else None)"

definition b64_pad :: code_unit where
  "b64_pad = 61"

text \<open>Three bytes make four characters; one or two trailing bytes are padded with
  \<open>=\<close> (RFC 4648).\<close>

fun base64_encode :: "byte list \<Rightarrow> js_string" where
  "base64_encode (a # b # c # bs) =
     (let n = unat a * 65536 + unat b * 256 + unat c
      in b64_char (n div 262144) # b64_char (n div 4096 mod 64) #
         b64_char (n div 64 mod 64) # b64_char (n mod 64) # base64_encode bs)"
| "base64_encode [a, b] =
     (let n = unat a * 1024 + unat b * 4
      in [b64_char (n div 4096), b64_char (n div 64 mod 64), b64_char (n mod 64), b64_pad])"
| "base64_encode [a] =
     (let n = unat a * 16
      in [b64_char (n div 64), b64_char (n mod 64), b64_pad, b64_pad])"
| "base64_encode [] = []"

text \<open>\<^verbatim>\<open>btoa\<close> refuses a string with a code unit above \<open>0xFF\<close>.\<close>

definition btoa :: "js_string \<Rightarrow> js_error + js_string" where
  "btoa s = (if list_all (\<lambda>c. c \<le> 0xFF) s then Inr (base64_encode (map ucast s))
             else Inl InvalidCharacterError)"

text \<open>
  \<^verbatim>\<open>atob\<close> is the forgiving-base64 decode of the platform: ASCII whitespace is
  dropped, one or two closing \<open>=\<close> are removed when the length is a multiple of
  four, a length of one modulo four or a character outside the alphabet fails, and
  the sextets are read through a 24-bit buffer whose last 12 or 18 bits give one or
  two bytes.
\<close>

definition is_ascii_whitespace :: "code_unit \<Rightarrow> bool" where
  "is_ascii_whitespace c = (c = 9 \<or> c = 10 \<or> c = 12 \<or> c = 13 \<or> c = 32)"

definition strip_padding :: "js_string \<Rightarrow> js_string" where
  "strip_padding d =
     (if 2 \<le> length d \<and> last d = b64_pad \<and> last (butlast d) = b64_pad
      then butlast (butlast d)
      else if d \<noteq> [] \<and> last d = b64_pad then butlast d
      else d)"

fun base64_decode_sextets :: "nat list \<Rightarrow> byte list" where
  "base64_decode_sextets (s1 # s2 # s3 # s4 # ss) =
     (let n = ((s1 * 64 + s2) * 64 + s3) * 64 + s4
      in of_nat (n div 65536) # of_nat (n div 256 mod 256) # of_nat (n mod 256) #
         base64_decode_sextets ss)"
| "base64_decode_sextets [s1, s2, s3] =
     (let n = (s1 * 64 + s2) * 64 + s3
      in [of_nat (n div 1024), of_nat (n div 4 mod 256)])"
| "base64_decode_sextets [s1, s2] = [of_nat ((s1 * 64 + s2) div 16)]"
| "base64_decode_sextets [s1] = []"
| "base64_decode_sextets [] = []"

definition atob :: "js_string \<Rightarrow> js_error + js_string" where
  "atob s =
     (let d = filter (\<lambda>c. \<not> is_ascii_whitespace c) s;
          d = (if length d mod 4 = 0 then strip_padding d else d)
      in if length d mod 4 = 1 then Inl InvalidCharacterError
         else (case those (map b64_index d) of
                 None \<Rightarrow> Inl InvalidCharacterError
               | Some ss \<Rightarrow> Inr (map fromCharCode (base64_decode_sextets ss))))"

section \<open>Text encoding: \<^verbatim>\<open>TextEncoder\<close> and \<^verbatim>\<open>TextDecoder\<close>\<close>

text \<open>
  \<^verbatim>\<open>new TextEncoder().encode(s)\<close> first reads the code units of \<open>s\<close> as scalar values
  (a high surrogate followed by a low one is one code point, any other surrogate becomes
  U+FFFD) and then writes each in UTF-8. \<^verbatim>\<open>new TextDecoder().decode(bytes)\<close> runs the
  UTF-8 decoder of the Encoding standard, which replaces every malformed sequence by
  U+FFFD; with the default options a leading U+FEFF is then dropped, and the code points
  are written back as code units.
\<close>

definition is_high_surrogate :: "code_unit \<Rightarrow> bool" where
  "is_high_surrogate c = (0xD800 \<le> unat c \<and> unat c \<le> 0xDBFF)"

definition is_low_surrogate :: "code_unit \<Rightarrow> bool" where
  "is_low_surrogate c = (0xDC00 \<le> unat c \<and> unat c \<le> 0xDFFF)"

definition scalar_of_unit :: "code_unit \<Rightarrow> nat" where
  "scalar_of_unit c = (if is_high_surrogate c \<or> is_low_surrogate c then 0xFFFD else unat c)"

fun code_points :: "js_string \<Rightarrow> nat list" where
  "code_points (c # d # cs) =
     (if is_high_surrogate c \<and> is_low_surrogate d
      then (0x10000 + (unat c - 0xD800) * 0x400 + (unat d - 0xDC00)) # code_points cs
      else scalar_of_unit c # code_points (d # cs))"
| "code_points [c] = [scalar_of_unit c]"
| "code_points [] = []"

definition byte_of :: "nat \<Rightarrow> byte" where
  "byte_of n = of_nat n"

definition unit_of :: "nat \<Rightarrow> code_unit" where
  "unit_of n = of_nat n"

definition utf8_encode_code_point :: "nat \<Rightarrow> byte list" where
  "utf8_encode_code_point cp =
     (if cp < 0x80 then [byte_of cp]
      else if cp < 0x800 then [byte_of (0xC0 + cp div 64), byte_of (0x80 + cp mod 64)]
      else if cp < 0x10000 then
        [byte_of (0xE0 + cp div 4096), byte_of (0x80 + cp div 64 mod 64), byte_of (0x80 + cp mod 64)]
      else
        [byte_of (0xF0 + cp div 262144), byte_of (0x80 + cp div 4096 mod 64),
         byte_of (0x80 + cp div 64 mod 64), byte_of (0x80 + cp mod 64)])"

definition TextEncoder_encode :: "js_string \<Rightarrow> Uint8Array" where
  "TextEncoder_encode s = concat (map utf8_encode_code_point (code_points s))"

text \<open>The decoder is the state machine of the standard: the code point under construction,
  the continuation bytes seen and needed, and the range allowed for the next byte. A byte
  that ends a sequence early is read again in the initial state.\<close>

record utf8_decoder =
  code_point :: nat
  bytes_seen :: nat
  bytes_needed :: nat
  lower_boundary :: nat
  upper_boundary :: nat

definition utf8_initial :: utf8_decoder where
  "utf8_initial = \<lparr>code_point = 0, bytes_seen = 0, bytes_needed = 0,
                    lower_boundary = 0x80, upper_boundary = 0xBF\<rparr>"

definition utf8_lead :: "nat \<Rightarrow> nat list \<times> utf8_decoder" where
  "utf8_lead b =
     (if b \<le> 0x7F then ([b], utf8_initial)
      else if 0xC2 \<le> b \<and> b \<le> 0xDF then
        ([], utf8_initial\<lparr>bytes_needed := 1, code_point := b mod 32\<rparr>)
      else if 0xE0 \<le> b \<and> b \<le> 0xEF then
        ([], utf8_initial\<lparr>lower_boundary := (if b = 0xE0 then 0xA0 else 0x80),
                          upper_boundary := (if b = 0xED then 0x9F else 0xBF),
                          bytes_needed := 2, code_point := b mod 16\<rparr>)
      else if 0xF0 \<le> b \<and> b \<le> 0xF4 then
        ([], utf8_initial\<lparr>lower_boundary := (if b = 0xF0 then 0x90 else 0x80),
                          upper_boundary := (if b = 0xF4 then 0x8F else 0xBF),
                          bytes_needed := 3, code_point := b mod 8\<rparr>)
      else ([0xFFFD], utf8_initial))"

definition utf8_handler :: "utf8_decoder \<Rightarrow> nat \<Rightarrow> nat list \<times> utf8_decoder" where
  "utf8_handler st b =
     (if bytes_needed st = 0 then utf8_lead b
      else if b < lower_boundary st \<or> upper_boundary st < b then
        (let (out, st') = utf8_lead b in (0xFFFD # out, st'))
      else
        (let cp = code_point st * 64 + b mod 64
         in if bytes_seen st + 1 \<noteq> bytes_needed st
            then ([], st\<lparr>lower_boundary := 0x80, upper_boundary := 0xBF,
                         code_point := cp, bytes_seen := bytes_seen st + 1\<rparr>)
            else ([cp], utf8_initial)))"

fun utf8_decode_run :: "utf8_decoder \<Rightarrow> byte list \<Rightarrow> nat list" where
  "utf8_decode_run st [] = (if bytes_needed st \<noteq> 0 then [0xFFFD] else [])"
| "utf8_decode_run st (b # bs) =
     (let (out, st') = utf8_handler st (unat b) in out @ utf8_decode_run st' bs)"

definition utf16_encode_code_point :: "nat \<Rightarrow> js_string" where
  "utf16_encode_code_point cp =
     (if cp < 0x10000 then [unit_of cp]
      else [unit_of (0xD800 + (cp - 0x10000) div 0x400), unit_of (0xDC00 + (cp - 0x10000) mod 0x400)])"

definition skip_bom :: "nat list \<Rightarrow> nat list" where
  "skip_bom cps = (case cps of [] \<Rightarrow> [] | c # r \<Rightarrow> if c = 0xFEFF then r else cps)"

definition TextDecoder_decode :: "Uint8Array \<Rightarrow> js_string" where
  "TextDecoder_decode bs =
     concat (map utf16_encode_code_point (skip_bom (utf8_decode_run utf8_initial bs)))"

fun isWellFormed :: "js_string \<Rightarrow> bool" where
  "isWellFormed (c # d # cs) =
     (if is_high_surrogate c \<and> is_low_surrogate d then isWellFormed cs
      else \<not> is_high_surrogate c \<and> \<not> is_low_surrogate c \<and> isWellFormed (d # cs))"
| "isWellFormed [c] = (\<not> is_high_surrogate c \<and> \<not> is_low_surrogate c)"
| "isWellFormed [] = True"

text \<open>\<^verbatim>\<open>String.prototype.isWellFormed\<close> is \<open>isWellFormed\<close> above; scalar values and a leading
  byte order mark are named for the statements about the codec.\<close>

definition is_scalar_value :: "nat \<Rightarrow> bool" where
  "is_scalar_value cp = (cp < 0x110000 \<and> \<not> (0xD800 \<le> cp \<and> cp \<le> 0xDFFF))"

definition starts_with_bom :: "js_string \<Rightarrow> bool" where
  "starts_with_bom s = (case s of [] \<Rightarrow> False | c # _ \<Rightarrow> c = 0xFEFF)"

section \<open>Bytes and words\<close>

text \<open>Big-endian reading and writing of words, and the bytewise exclusive or
  (as long as the shorter argument).\<close>

definition be_bytes :: "nat \<Rightarrow> 'a::len word \<Rightarrow> byte list" where
  "be_bytes n w = map (\<lambda>i. ucast (drop_bit (8 * (n - 1 - i)) w)) [0..<n]"

definition of_be_bytes :: "byte list \<Rightarrow> 'a::len word" where
  "of_be_bytes bs = foldl (\<lambda>acc b. push_bit 8 acc OR ucast b) 0 bs"

definition xor_bytes :: "byte list \<Rightarrow> byte list \<Rightarrow> byte list" where
  "xor_bytes xs ys = map2 (XOR) xs ys"

section \<open>SHA-256 (FIPS 180-4)\<close>

text \<open>\<^verbatim>\<open>crypto.subtle.digest('SHA-256', data)\<close>, and the hash inside PBKDF2.\<close>

type_synonym word32 = "32 word"

definition Ch :: "word32 \<Rightarrow> word32 \<Rightarrow> word32 \<Rightarrow> word32" where
  "Ch x y z = (x AND y) XOR (NOT x AND z)"

definition Maj :: "word32 \<Rightarrow> word32 \<Rightarrow> word32 \<Rightarrow> word32" where
  "Maj x y z = (x AND y) XOR (x AND z) XOR (y AND z)"

definition Sigma0 :: "word32 \<Rightarrow> word32" where
  "Sigma0 x = word_rotr 2 x XOR word_rotr 13 x XOR word_rotr 22 x"

definition Sigma1 :: "word32 \<Rightarrow> word32" where
  "Sigma1 x = word_rotr 6 x XOR word_rotr 11 x XOR word_rotr 25 x"

definition sigma0 :: "word32 \<Rightarrow> word32" where
  "sigma0 x = word_rotr 7 x XOR word_rotr 18 x XOR drop_bit 3 x"

definition sigma1 :: "word32 \<Rightarrow> word32" where
  "sigma1 x = word_rotr 17 x XOR word_rotr 19 x XOR drop_bit 10 x"

definition sha256_K :: "word32 list" where
  "sha256_K =
    [0x428A2F98, 0x71374491, 0xB5C0FBCF, 0xE9B5DBA5, 0x3956C25B, 0x59F111F1, 0x923F82A4,
     0xAB1C5ED5, 0xD807AA98, 0x12835B01, 0x243185BE, 0x550C7DC3, 0x72BE5D74, 0x80DEB1FE,
     0x9BDC06A7, 0xC19BF174, 0xE49B69C1, 0xEFBE4786, 0x0FC19DC6, 0x240CA1CC, 0x2DE92C6F,
     0x4A7484AA, 0x5CB0A9DC, 0x76F988DA, 0x983E5152, 0xA831C66D, 0xB00327C8, 0xBF597FC7,
     0xC6E00BF3, 0xD5A79147, 0x06CA6351, 0x14292967, 0x27B70A85, 0x2E1B2138, 0x4D2C6DFC,
     0x53380D13, 0x650A7354, 0x766A0ABB, 0x81C2C92E, 0x92722C85, 0xA2BFE8A1, 0xA81A664B,
     0xC24B8B70, 0xC76C51A3, 0xD192E819, 0xD6990624, 0xF40E3585, 0x106AA070, 0x19A4C116,
     0x1E376C08, 0x2748774C, 0x34B0BCB5, 0x391C0CB3, 0x4ED8AA4A, 0x5B9CCA4F, 0x682E6FF3,
     0x748F82EE, 0x78A5636F, 0x84C87814, 0x8CC70208, 0x90BEFFFA, 0xA4506CEB, 0xBEF9A3F7,
     0xC67178F2]"

type_synonym sha256_state =
  "word32 \<times> word32 \<times> word32 \<times> word32 \<times> word32 \<times> word32 \<times> word32 \<times> word32"

definition sha256_H0 :: sha256_state where
  "sha256_H0 = (0x6A09E667, 0xBB67AE85, 0x3C6EF372, 0xA54FF53A,
                0x510E527F, 0x9B05688C, 0x1F83D9AB, 0x5BE0CD19)"

definition sha256_pad :: "byte list \<Rightarrow> byte list" where
  "sha256_pad m = m @ [0x80] @ replicate ((119 - length m mod 64) mod 64) 0 @
                  be_bytes 8 (of_nat (8 * length m) :: 64 word)"

fun chunks :: "nat \<Rightarrow> 'a list \<Rightarrow> 'a list list" where
  "chunks n xs = (if n = 0 \<or> xs = [] then [] else take n xs # chunks n (drop n xs))"

declare chunks.simps [simp del]

fun sha256_schedule :: "nat \<Rightarrow> word32 list \<Rightarrow> word32 list" where
  "sha256_schedule 0 ws = ws"
| "sha256_schedule (Suc n) ws =
     (let t = length ws
      in sha256_schedule n
           (ws @ [sigma1 (ws ! (t - 2)) + ws ! (t - 7) + sigma0 (ws ! (t - 15)) + ws ! (t - 16)]))"

definition sha256_round :: "sha256_state \<Rightarrow> word32 \<times> word32 \<Rightarrow> sha256_state" where
  "sha256_round s kw =
     (case s of (a, b, c, d, e, f, g, h) \<Rightarrow>
        let T1 = h + Sigma1 e + Ch e f g + fst kw + snd kw;
            T2 = Sigma0 a + Maj a b c
        in (T1 + T2, a, b, c, d + T1, e, f, g))"

definition sha256_compress :: "sha256_state \<Rightarrow> byte list \<Rightarrow> sha256_state" where
  "sha256_compress H block =
     (let W = sha256_schedule 48 (map of_be_bytes (chunks 4 block));
          r = foldl sha256_round H (zip sha256_K W)
      in case (H, r) of ((a, b, c, d, e, f, g, h), (a', b', c', d', e', f', g', h')) \<Rightarrow>
           (a + a', b + b', c + c', d + d', e + e', f + f', g + g', h + h'))"

definition sha256 :: "byte list \<Rightarrow> byte list" where
  "sha256 m =
     (case foldl sha256_compress sha256_H0 (chunks 64 (sha256_pad m)) of
        (a, b, c, d, e, f, g, h) \<Rightarrow> concat (map (be_bytes 4) [a, b, c, d, e, f, g, h]))"

section \<open>HMAC (RFC 2104) and PBKDF2 (RFC 8018) over SHA-256\<close>

text \<open>
  \<^verbatim>\<open>crypto.subtle.deriveKey\<close> with \<^verbatim>\<open>{ name: 'PBKDF2', hash: 'SHA-256' }\<close> is PBKDF2 with
  HMAC-SHA-256 as its pseudorandom function and the imported key material as the HMAC
  key. HMAC brings its key to the block length of 64 bytes: a longer key is hashed, and
  the result is filled up with zero bytes.
\<close>

definition hmac_key_block :: "byte list \<Rightarrow> byte list" where
  "hmac_key_block key =
     (let k = (if 64 < length key then sha256 key else key)
      in k @ replicate (64 - length k) 0)"

definition hmac_sha256 :: "byte list \<Rightarrow> byte list \<Rightarrow> byte list" where
  "hmac_sha256 key msg =
     (let k0 = hmac_key_block key
      in sha256 (map (\<lambda>b. b XOR 0x5C) k0 @ sha256 (map (\<lambda>b. b XOR 0x36) k0 @ msg)))"

fun pbkdf2_rounds :: "byte list \<Rightarrow> nat \<Rightarrow> byte list \<Rightarrow> byte list \<Rightarrow> byte list" where
  "pbkdf2_rounds P 0 u t = t"
| "pbkdf2_rounds P (Suc n) u t =
     (let u' = hmac_sha256 P u in pbkdf2_rounds P n u' (xor_bytes t u'))"

definition pbkdf2_F :: "byte list \<Rightarrow> byte list \<Rightarrow> nat \<Rightarrow> nat \<Rightarrow> byte list" where
  "pbkdf2_F P S c i =
     (let u1 = hmac_sha256 P (S @ be_bytes 4 (of_nat i :: word32))
      in pbkdf2_rounds P (c - 1) u1 u1)"

definition pbkdf2_hmac_sha256 :: "byte list \<Rightarrow> byte list \<Rightarrow> nat \<Rightarrow> nat \<Rightarrow> byte list" where
  "pbkdf2_hmac_sha256 P S c dkLen =
     take dkLen (concat (map (pbkdf2_F P S c) [1..<Suc ((dkLen + 31) div 32)]))"

section \<open>AES-256 (FIPS 197)\<close>

text \<open>The block cipher of \<^verbatim>\<open>{ name: 'AES-GCM', length: 256 }\<close>. The state is a list of 16
  bytes, column by column. No property below depends on the values the cipher takes.\<close>

definition xtime :: "byte \<Rightarrow> byte" where
  "xtime b = (if bit b 7 then push_bit 1 b XOR 0x1B else push_bit 1 b)"

fun gf256_mul_bits :: "nat \<Rightarrow> byte \<Rightarrow> byte \<Rightarrow> byte" where
  "gf256_mul_bits 0 a b = 0"
| "gf256_mul_bits (Suc n) a b =
     (if bit b 0 then a else 0) XOR gf256_mul_bits n (xtime a) (drop_bit 1 b)"

definition gf256_mul :: "byte \<Rightarrow> byte \<Rightarrow> byte" where
  "gf256_mul a b = gf256_mul_bits 8 a b"

text \<open>The inverse in the field is the 254th power (zero is sent to zero).\<close>

definition gf256_inv :: "byte \<Rightarrow> byte" where
  "gf256_inv a = ((gf256_mul a) ^^ 253) a"

definition SubByte :: "byte \<Rightarrow> byte" where
  "SubByte a =
     (let b = gf256_inv a
      in b XOR word_rotl 1 b XOR word_rotl 2 b XOR word_rotl 3 b XOR word_rotl 4 b XOR 0x63)"

definition SubBytes :: "byte list \<Rightarrow> byte list" where
  "SubBytes st = map SubByte st"

definition ShiftRows :: "byte list \<Rightarrow> byte list" where
  "ShiftRows st = map (\<lambda>i. st ! (i mod 4 + 4 * ((i div 4 + i mod 4) mod 4))) [0..<16]"

definition MixColumn :: "byte list \<Rightarrow> byte list" where
  "MixColumn col =
     (case col of [a0, a1, a2, a3] \<Rightarrow>
        [gf256_mul 2 a0 XOR gf256_mul 3 a1 XOR a2 XOR a3,
         a0 XOR gf256_mul 2 a1 XOR gf256_mul 3 a2 XOR a3,
         a0 XOR a1 XOR gf256_mul 2 a2 XOR gf256_mul 3 a3,
         gf256_mul 3 a0 XOR a1 XOR a2 XOR gf256_mul 2 a3]
      | _ \<Rightarrow> col)"

definition MixColumns :: "byte list \<Rightarrow> byte list" where
  "MixColumns st = concat (map MixColumn (chunks 4 st))"

definition AddRoundKey :: "byte list \<Rightarrow> byte list \<Rightarrow> byte list" where
  "AddRoundKey st rk = xor_bytes st rk"

definition Rcon :: "nat \<Rightarrow> byte list" where
  "Rcon i = [(xtime ^^ (i - 1)) 1, 0, 0, 0]"

text \<open>The key schedule for \<open>Nk = 8\<close>: sixty words of four bytes, kept as one list.\<close>

fun KeyExpansion_words :: "nat \<Rightarrow> byte list list \<Rightarrow> byte list list" where
  "KeyExpansion_words 0 w = w"
| "KeyExpansion_words (Suc n) w =
     (let i = length w;
          temp = w ! (i - 1);
          temp = (if i mod 8 = 0 then xor_bytes (SubBytes (rotate 1 temp)) (Rcon (i div 8))
                  else if i mod 8 = 4 then SubBytes temp
                  else temp)
      in KeyExpansion_words n (w @ [xor_bytes (w ! (i - 8)) temp]))"

definition KeyExpansion :: "byte list \<Rightarrow> byte list list" where
  "KeyExpansion key = chunks 16 (concat (KeyExpansion_words 52 (chunks 4 key)))"

definition aes_round :: "byte list \<Rightarrow> byte list \<Rightarrow> byte list" where
  "aes_round st rk = AddRoundKey (MixColumns (ShiftRows (SubBytes st))) rk"

definition aes256_cipher :: "byte list \<Rightarrow> byte list \<Rightarrow> byte list" where
  "aes256_cipher key input =
     (let rks = KeyExpansion key;
          st = AddRoundKey input (rks ! 0);
          st = foldl aes_round st (take 13 (drop 1 rks))
      in AddRoundKey (ShiftRows (SubBytes st)) (rks ! 14))"

section \<open>Galois/Counter Mode (NIST SP 800-38D)\<close>

text \<open>
  \<^verbatim>\<open>crypto.subtle.encrypt({ name: 'AES-GCM', iv }, key, data)\<close> returns the ciphertext
  followed by the tag; without \<^verbatim>\<open>tagLength\<close> the tag has 128 bits, and without
  \<^verbatim>\<open>additionalData\<close> there is no associated data. \<^verbatim>\<open>crypto.subtle.decrypt\<close> throws
  \<open>OperationError\<close> when its input is shorter than the tag and when the tag does not
  verify.
\<close>

type_synonym block = "128 word"

definition block_of_bytes :: "byte list \<Rightarrow> block" where
  "block_of_bytes bs = of_be_bytes (take 16 (bs @ replicate 16 0))"

definition bytes_of_block :: "block \<Rightarrow> byte list" where
  "bytes_of_block x = be_bytes 16 x"

definition CIPH :: "byte list \<Rightarrow> block \<Rightarrow> block" where
  "CIPH K x = block_of_bytes (aes256_cipher K (bytes_of_block x))"

fun gf128_mul_bits :: "nat \<Rightarrow> block \<Rightarrow> block \<Rightarrow> block \<Rightarrow> block" where
  "gf128_mul_bits 0 X V Z = Z"
| "gf128_mul_bits (Suc n) X V Z =
     gf128_mul_bits n X
       (if bit V 0 then drop_bit 1 V XOR push_bit 120 0xE1 else drop_bit 1 V)
       (if bit X n then Z XOR V else Z)"

definition gf128_mul :: "block \<Rightarrow> block \<Rightarrow> block" where
  "gf128_mul X Y = gf128_mul_bits 128 X Y 0"

definition GHASH :: "block \<Rightarrow> byte list \<Rightarrow> block" where
  "GHASH H bs = foldl (\<lambda>Y x. gf128_mul (Y XOR block_of_bytes x) H) 0 (chunks 16 bs)"

definition inc32 :: "block \<Rightarrow> block" where
  "inc32 X = (X AND NOT 0xFFFFFFFF) OR ((X + 1) AND 0xFFFFFFFF)"

function GCTR :: "byte list \<Rightarrow> block \<Rightarrow> byte list \<Rightarrow> byte list" where
  "GCTR K cb bs =
     (if bs = [] then []
      else xor_bytes (take 16 bs) (bytes_of_block (CIPH K cb)) @ GCTR K (inc32 cb) (drop 16 bs))"
  by pat_completeness auto
termination
  by (relation "measure (\<lambda>(K, cb, bs). length bs)") auto

declare GCTR.simps [simp del]

definition pad16 :: "byte list \<Rightarrow> byte list" where
  "pad16 bs = bs @ replicate ((16 - length bs mod 16) mod 16) 0"

definition gcm_J0 :: "block \<Rightarrow> byte list \<Rightarrow> block" where
  "gcm_J0 H iv =
     (if length iv = 12 then block_of_bytes (iv @ [0, 0, 0, 1])
      else GHASH H (pad16 iv @ replicate 8 0 @ be_bytes 8 (of_nat (8 * length iv) :: 64 word)))"

definition gcm_tag :: "byte list \<Rightarrow> byte list \<Rightarrow> byte list \<Rightarrow> byte list \<Rightarrow> byte list" where
  "gcm_tag K iv A C =
     (let H = CIPH K 0;
          S = GHASH H (pad16 A @ pad16 C @ be_bytes 8 (of_nat (8 * length A) :: 64 word) @
                       be_bytes 8 (of_nat (8 * length C) :: 64 word))
      in GCTR K (gcm_J0 H iv) (bytes_of_block S))"

definition gcm_encrypt :: "byte list \<Rightarrow> byte list \<Rightarrow> byte list \<Rightarrow> byte list" where
  "gcm_encrypt K iv P =
     (let C = GCTR K (inc32 (gcm_J0 (CIPH K 0) iv)) P
      in C @ gcm_tag K iv [] C)"

definition gcm_decrypt :: "byte list \<Rightarrow> byte list \<Rightarrow> byte list \<Rightarrow> js_error + byte list" where
  "gcm_decrypt K iv data =
     (if length data < 16 then Inl OperationError
      else let C = take (length data - 16) data;
               T = drop (length data - 16) data
           in if gcm_tag K iv [] C = T
              then Inr (GCTR K (inc32 (gcm_J0 (CIPH K 0) iv)) C)
              else Inl OperationError)"

section \<open>crypto.ts\<close>

text \<open>
  \<^verbatim>\<open>crypto.getRandomValues\<close> is the only source of entropy. It is a sequence of bytes here,
  of which each call takes the next \<open>n\<close>; \<^verbatim>\<open>encryptData\<close> returns what is left of it.
\<close>

type_synonym entropy = "nat \<Rightarrow> byte"

definition getRandomValues :: "nat \<Rightarrow> entropy \<Rightarrow> Uint8Array \<times> entropy" where
  "getRandomValues n rng = (map rng [0..<n], (\<lambda>i. rng (n + i)))"

text \<open>
  \<^verbatim>\<open>
  async function deriveKey(masterKey: string, salt: string): Promise<CryptoKey> {
    const encoder = new TextEncoder();
    const keyMaterial = await crypto.subtle.importKey(
      'raw', encoder.encode(masterKey), 'PBKDF2', false, ['deriveBits', 'deriveKey']);
    return crypto.subtle.deriveKey(
      { name: 'PBKDF2', salt: encoder.encode(salt), iterations: 100000, hash: 'SHA-256' },
      keyMaterial, { name: 'AES-GCM', length: 256 }, true, ['encrypt', 'decrypt']);
  }
  \<close>
  The salt arrives as a string and is encoded again. The key is its 32 raw bytes. The
  constant \<^verbatim>\<open>ENCRYPTION_KEY_LENGTH\<close> is declared in the file and used nowhere.
\<close>

definition ENCRYPTION_KEY_LENGTH :: nat where
  "ENCRYPTION_KEY_LENGTH = 32"

definition deriveKey :: "js_string \<Rightarrow> js_string \<Rightarrow> byte list" where
  "deriveKey masterKey salt =
     (let keyMaterial = TextEncoder_encode masterKey
      in pbkdf2_hmac_sha256 keyMaterial (TextEncoder_encode salt) 100000 32)"

text \<open>
  \<^verbatim>\<open>
  export async function encryptData(data: string, masterKey: string): Promise<string> {
    const encoder = new TextEncoder();
    const salt = crypto.getRandomValues(new Uint8Array(16));
    const iv = crypto.getRandomValues(new Uint8Array(12));
    const key = await deriveKey(masterKey,
      Array.from(salt).map(b => String.fromCharCode(b)).join(''));
    const encryptedData = await crypto.subtle.encrypt(
      { name: 'AES-GCM', iv }, key, encoder.encode(data));
    const combined = new Uint8Array(salt.length + iv.length + encryptedData.byteLength);
    combined.set(salt, 0);
    combined.set(iv, salt.length);
    combined.set(new Uint8Array(encryptedData), salt.length + iv.length);
    return btoa(String.fromCharCode(...Array.from(combined)));
  }
  \<close>
\<close>

definition encryptData :: "js_string \<Rightarrow> js_string \<Rightarrow> entropy \<Rightarrow> (js_error + js_string) \<times> entropy" where
  "encryptData data masterKey rng =
     (let (salt, rng) = getRandomValues 16 rng;
          (iv, rng) = getRandomValues 12 rng;
          key = deriveKey masterKey (map fromCharCode salt);
          encryptedData = gcm_encrypt key iv (TextEncoder_encode data);
          combined = salt @ iv @ encryptedData
      in (btoa (map fromCharCode combined), rng))"

text \<open>
  \<^verbatim>\<open>
  export async function decryptData(encryptedData: string, masterKey: string): Promise<string> {
    const combined = Uint8Array.from(atob(encryptedData), c => c.charCodeAt(0));
    const salt = combined.slice(0, 16);
    const iv = combined.slice(16, 28);
    const data = combined.slice(28);
    const key = await deriveKey(masterKey,
      Array.from(salt).map(b => String.fromCharCode(b)).join(''));
    const decryptedData = await crypto.subtle.decrypt({ name: 'AES-GCM', iv }, key, data);
    const decoder = new TextDecoder();
    return decoder.decode(decryptedData);
  }
  \<close>
  \<^verbatim>\<open>slice\<close> does not fail on a short array: it returns what there is.
\<close>

definition decryptData :: "js_string \<Rightarrow> js_string \<Rightarrow> js_error + js_string" where
  "decryptData encryptedData masterKey =
     then_result (atob encryptedData) (\<lambda>binary.
       let combined = map charCodeAt0 binary;
           salt = take 16 combined;
           iv = take 12 (drop 16 combined);
           data = drop 28 combined;
           key = deriveKey masterKey (map fromCharCode salt)
       in then_result (gcm_decrypt key iv data) (\<lambda>decryptedData.
            Inr (TextDecoder_decode decryptedData)))"

text \<open>
  \<^verbatim>\<open>
  export async function hashMasterKey(masterKey: string): Promise<string> {
    const encoder = new TextEncoder();
    const data = encoder.encode(masterKey);
    const hashBuffer = await crypto.subtle.digest('SHA-256', data);
    const hashArray = Array.from(new Uint8Array(hashBuffer));
    return hashArray.map(b => b.toString(16).padStart(2, '0')).join('');
  }
  \<close>
  \<^verbatim>\<open>toString(16)\<close> writes a number in lowercase hexadecimal without leading zeros.
\<close>

definition hex_digit :: "nat \<Rightarrow> code_unit" where
  "hex_digit d = unit_of (if d < 10 then 48 + d else 87 + d)"

function toString16 :: "nat \<Rightarrow> js_string" where
  "toString16 n = (if n < 16 then [hex_digit n] else toString16 (n div 16) @ [hex_digit (n mod 16)])"
  by pat_completeness auto
termination
  by (relation "measure id") auto

declare toString16.simps [simp del]

definition padStart :: "nat \<Rightarrow> code_unit \<Rightarrow> js_string \<Rightarrow> js_string" where
  "padStart targetLength fill s = replicate (targetLength - length s) fill @ s"

definition hashMasterKey :: "js_string \<Rightarrow> js_string" where
  "hashMasterKey masterKey =
     (let data = TextEncoder_encode masterKey;
          hashArray = sha256 data
      in concat (map (\<lambda>b. padStart 2 48 (toString16 (unat b))) hashArray))"

text \<open>The two arrays \<^verbatim>\<open>encryptData\<close> draws, named for the statements below.\<close>

definition drawn_salt :: "entropy \<Rightarrow> Uint8Array" where
  "drawn_salt rng = fst (getRandomValues 16 rng)"

definition drawn_iv :: "entropy \<Rightarrow> Uint8Array" where
  "drawn_iv rng = fst (getRandomValues 12 (snd (getRandomValues 16 rng)))"

definition is_lower_hex :: "code_unit \<Rightarrow> bool" where
  "is_lower_hex c = ((48 \<le> unat c \<and> unat c \<le> 57) \<or> (97 \<le> unat c \<and> unat c \<le> 102))"

section \<open>AuthContext.tsx\<close>

text \<open>JavaScript truthiness of a \<^verbatim>\<open>string | null\<close>: \<^verbatim>\<open>null\<close> and the empty string are falsy.\<close>

definition truthy :: "js_string option \<Rightarrow> bool" where
  "truthy v = (case v of None \<Rightarrow> False | Some s \<Rightarrow> s \<noteq> [])"

text \<open>
  The state of \<^verbatim>\<open>AuthProvider\<close> is \<^verbatim>\<open>userId\<close>, \<^verbatim>\<open>masterKey\<close> and \<^verbatim>\<open>lastActivity\<close>; with it
  goes the interval of the second effect, kept as the time at which it fires next.
  \<^verbatim>\<open>
  const isAuthenticated = !!userId && !!masterKey;

  useEffect(() => {
    if (!isAuthenticated) return;
    const interval = setInterval(() => {
      const timeSinceLastActivity = Date.now() - lastActivity;
      if (timeSinceLastActivity > 30000) {
        logout();
      }
    }, 1000);
    return () => clearInterval(interval);
  }, [isAuthenticated, lastActivity]);

  const login = (key: string, id: string) => {
    setMasterKey(key);
    setUserId(id);
    setLastActivity(Date.now());
  };

  const logout = () => {
    setMasterKey(null);
    setUserId(null);
  };
  \<close>
  Times are \<^verbatim>\<open>Date.now()\<close> in milliseconds. After a change of state React renders again
  (\<open>commit\<close>), and when \<^verbatim>\<open>isAuthenticated\<close> or \<^verbatim>\<open>lastActivity\<close> has changed the effect is
  cleaned up and run again (\<open>timeout_effect\<close>): the old interval is cleared, and a new
  one is set if the session is authenticated. \<open>handleActivity\<close> is the listener of
  \<^verbatim>\<open>mousemove\<close>, \<^verbatim>\<open>keydown\<close> and \<^verbatim>\<open>click\<close>; \<open>interval_tick\<close> is the callback of the
  interval, and \<open>run_until\<close> lets time pass up to an instant, firing the interval whenever
  it is due, on schedule.
\<close>

record session =
  userId :: "js_string option"
  masterKey :: "js_string option"
  lastActivity :: int
  interval_due :: "int option"

definition isAuthenticated :: "session \<Rightarrow> bool" where
  "isAuthenticated s = (truthy (userId s) \<and> truthy (masterKey s))"

definition timeout_effect :: "int \<Rightarrow> session \<Rightarrow> session" where
  "timeout_effect now s =
     s\<lparr>interval_due := (if isAuthenticated s then Some (now + 1000) else None)\<rparr>"

definition commit :: "int \<Rightarrow> session \<Rightarrow> session \<Rightarrow> session" where
  "commit now old new =
     (if isAuthenticated new = isAuthenticated old \<and> lastActivity new = lastActivity old
      then new else timeout_effect now new)"

definition handleActivity :: "int \<Rightarrow> session \<Rightarrow> session" where
  "handleActivity now s = commit now s (s\<lparr>lastActivity := now\<rparr>)"

definition login :: "js_string \<Rightarrow> js_string \<Rightarrow> int \<Rightarrow> session \<Rightarrow> session" where
  "login key ident now s =
     commit now s (s\<lparr>userId := Some ident, masterKey := Some key, lastActivity := now\<rparr>)"

definition logout :: "int \<Rightarrow> session \<Rightarrow> session" where
  "logout now s = commit now s (s\<lparr>userId := None, masterKey := None\<rparr>)"

definition interval_tick :: "int \<Rightarrow> session \<Rightarrow> session" where
  "interval_tick now s =
     (let s = s\<lparr>interval_due := Some (now + 1000)\<rparr>;
          timeSinceLastActivity = now - lastActivity s
      in if timeSinceLastActivity > 30000 then logout now s else s)"

function run_until :: "int \<Rightarrow> session \<Rightarrow> session" where
  "run_until target s =
     (case interval_due s of
        None \<Rightarrow> s
      | Some t \<Rightarrow> if t \<le> target then run_until target (interval_tick t s) else s)"
  by pat_completeness auto
termination
proof (relation "measure (\<lambda>(target, s). case interval_due s of None \<Rightarrow> 0
                                         | Some t \<Rightarrow> nat (target + 1 - t))")
  show "wf (measure (\<lambda>(target, s). case interval_due s of None \<Rightarrow> 0
                                         | Some t \<Rightarrow> nat (target + 1 - t)))"
    by simp
next
  fix target :: int and s :: session and t :: int
  assume "interval_due s = Some t" "t \<le> target"
  then show "((target, interval_tick t s), (target, s)) \<in>
      measure (\<lambda>(target, s). case interval_due s of None \<Rightarrow> 0 | Some t \<Rightarrow> nat (target + 1 - t))"
    by (auto simp: interval_tick_def logout_def commit_def timeout_effect_def Let_def)
qed

declare run_until.simps [simp del]

definition initial_session :: "int \<Rightarrow> session" where
  "initial_session now =
     \<lparr>userId = None, masterKey = None, lastActivity = now, interval_due = None\<rparr>"

text \<open>
  \<^verbatim>\<open>
  const verifyMasterKey = async (key: string) => {
    const { data: authData, error: authError } = await supabase.auth.signInWithPassword({
      email: `user@securevault.local`,
      password: key,
    });
    if (authError) {
      const keyHash = await hashMasterKey(key);
      const { data: users, error: queryError } = await supabase
        .from('users')
        .select('id, master_key_hash')
        .eq('master_key_hash', keyHash)
        .maybeSingle();
      if (queryError || !users) {
        return { success: false };
      }
      return { success: true, userId: users.id };
    }
    return { success: true, userId: authData.user?.id };
  };
  \<close>
  The backend is a parameter: what the identity provider answers to an email and a
  password, and the rows of \<^verbatim>\<open>users\<close> the request can read (\<open>None\<close> when the request
  fails). \<^verbatim>\<open>maybeSingle()\<close> gives the row when there is one, \<^verbatim>\<open>null\<close> when there is none,
  and an error when there are several.
\<close>

record user_row =
  users_id :: js_string
  users_master_key_hash :: js_string

datatype auth_response = AuthError | AuthData "js_string option"

record supabase =
  signInWithPassword :: "js_string \<Rightarrow> js_string \<Rightarrow> auth_response"
  users_table :: "user_row list option"

record 'a postgrest_response =
  response_data :: "'a option"
  response_error :: bool

definition maybeSingle :: "'a list option \<Rightarrow> 'a postgrest_response" where
  "maybeSingle rows =
     (case rows of
        None \<Rightarrow> \<lparr>response_data = None, response_error = True\<rparr>
      | Some [] \<Rightarrow> \<lparr>response_data = None, response_error = False\<rparr>
      | Some [r] \<Rightarrow> \<lparr>response_data = Some r, response_error = False\<rparr>
      | Some _ \<Rightarrow> \<lparr>response_data = None, response_error = True\<rparr>)"

definition select_eq :: "('a \<Rightarrow> js_string) \<Rightarrow> js_string \<Rightarrow> 'a list option \<Rightarrow> 'a list option" where
  "select_eq column v rows = map_option (filter (\<lambda>r. column r = v)) rows"

record verify_result =
  success :: bool
  result_userId :: "js_string option"

definition login_email :: js_string where
  "login_email = map of_char ''user@securevault.local''"

definition verifyMasterKey :: "supabase \<Rightarrow> js_string \<Rightarrow> verify_result" where
  "verifyMasterKey db key =
     (case signInWithPassword db login_email key of
        AuthError \<Rightarrow>
          (let keyHash = hashMasterKey key;
               r = maybeSingle (select_eq users_master_key_hash keyHash (users_table db))
           in if response_error r \<or> response_data r = None
              then \<lparr>success = False, result_userId = None\<rparr>
              else \<lparr>success = True, result_userId = map_option users_id (response_data r)\<rparr>)
      | AuthData user \<Rightarrow> \<lparr>success = True, result_userId = user\<rparr>)"


section \<open>Dashboard.tsx\<close>

text \<open>
  \<^verbatim>\<open>
  const loadData = async () => {
    if (!userId || !masterKey) return;
    try {
      const { data: categoriesData } = await supabase.from('categories') ... ;
      setCategories(categoriesData || []);
      const { data: passwordsData } = await supabase.from('passwords') ... ;
      if (passwordsData) {
        const decrypted = await Promise.all(
          passwordsData.map(async (pwd) => {
            try {
              return {
                ...pwd,
                title: await decryptData(pwd.title, masterKey),
                username: await decryptData(pwd.username, masterKey),
                password: await decryptData(pwd.password, masterKey),
                url: pwd.url ? await decryptData(pwd.url, masterKey) : undefined,
                notes: pwd.notes ? await decryptData(pwd.notes, masterKey) : undefined,
                category: categoriesData?.find(c => c.id === pwd.category_id),
              };
            } catch {
              return null;
            }
          })
        );
        setPasswords(decrypted.filter((p): p is DecryptedPassword => p !== null));
      }
    } catch (error) {
      console.error('Failed to load data:', error);
    } finally {
      setLoading(false);
    }
  };
  \<close>
  The two queries are parameters: the rows they returned, or \<^verbatim>\<open>null\<close>.
\<close>

record Category =
  category_id :: js_string
  category_user_id :: js_string
  category_name :: js_string
  category_color :: js_string
  category_created_at :: js_string

record Password =
  pw_id :: js_string
  pw_user_id :: js_string
  pw_category_id :: "js_string option"
  pw_title :: js_string
  pw_username :: js_string
  pw_password :: js_string
  pw_url :: "js_string option"
  pw_notes :: "js_string option"
  pw_password_type :: js_string
  pw_created_at :: js_string
  pw_updated_at :: js_string

record DecryptedPassword =
  dp_id :: js_string
  dp_user_id :: js_string
  dp_category_id :: "js_string option"
  dp_title :: js_string
  dp_username :: js_string
  dp_password :: js_string
  dp_url :: "js_string option"
  dp_notes :: "js_string option"
  dp_password_type :: js_string
  dp_created_at :: js_string
  dp_updated_at :: js_string
  dp_category :: "Category option"

text \<open>\<^verbatim>\<open>pwd.url ? await decryptData(pwd.url, masterKey) : undefined\<close>\<close>

definition decrypt_optional :: "js_string option \<Rightarrow> js_string \<Rightarrow> js_error + js_string option" where
  "decrypt_optional field key =
     (if truthy field then map_sum id Some (decryptData (the field) key) else Inr None)"

definition find_category :: "Category list option \<Rightarrow> js_string option \<Rightarrow> Category option" where
  "find_category categoriesData cid =
     (case categoriesData of None \<Rightarrow> None
      | Some cs \<Rightarrow> find (\<lambda>c. Some (category_id c) = cid) cs)"

text \<open>The body of the \<^verbatim>\<open>try\<close> inside \<^verbatim>\<open>passwordsData.map\<close>: the fields are decrypted in
  order, and the first exception leaves the rest undone.\<close>

definition decrypt_fields :: "js_string \<Rightarrow> Category list option \<Rightarrow> Password \<Rightarrow> js_error + DecryptedPassword" where
  "decrypt_fields key categoriesData pwd =
     then_result (decryptData (pw_title pwd) key) (\<lambda>t.
     then_result (decryptData (pw_username pwd) key) (\<lambda>u.
     then_result (decryptData (pw_password pwd) key) (\<lambda>p.
     then_result (decrypt_optional (pw_url pwd) key) (\<lambda>l.
     then_result (decrypt_optional (pw_notes pwd) key) (\<lambda>n.
       Inr \<lparr>dp_id = pw_id pwd, dp_user_id = pw_user_id pwd, dp_category_id = pw_category_id pwd,
            dp_title = t, dp_username = u, dp_password = p, dp_url = l, dp_notes = n,
            dp_password_type = pw_password_type pwd, dp_created_at = pw_created_at pwd,
            dp_updated_at = pw_updated_at pwd,
            dp_category = find_category categoriesData (pw_category_id pwd)\<rparr>)))))"

text \<open>\<^verbatim>\<open>try { return {...} } catch { return null }\<close>\<close>

definition decrypt_password :: "js_string \<Rightarrow> Category list option \<Rightarrow> Password \<Rightarrow> DecryptedPassword option" where
  "decrypt_password key categoriesData pwd =
     (case decrypt_fields key categoriesData pwd of Inl e \<Rightarrow> None | Inr d \<Rightarrow> Some d)"

record dashboard =
  passwords :: "DecryptedPassword list"
  categories :: "Category list"
  loading :: bool

definition loadData ::
  "session \<Rightarrow> Category list option \<Rightarrow> Password list option \<Rightarrow> dashboard \<Rightarrow> dashboard" where
  "loadData auth categoriesData passwordsData st =
     (if \<not> truthy (userId auth) \<or> \<not> truthy (masterKey auth) then st
      else
        let st = st\<lparr>categories := (case categoriesData of None \<Rightarrow> [] | Some cs \<Rightarrow> cs)\<rparr>;
            st = (case passwordsData of
                    None \<Rightarrow> st
                  | Some rows \<Rightarrow>
                      let decrypted = map (decrypt_password (the (masterKey auth)) categoriesData) rows
                      in st\<lparr>passwords := map the (filter (\<lambda>p. p \<noteq> None) decrypted)\<rparr>)
        in st\<lparr>loading := False\<rparr>)"

section \<open>Inputs of the examples\<close>

text \<open>An entropy source (the bytes 0, 1, 2, ...), a provider that rejects every sign-in,
  an account created with a master key, the envelope \<^verbatim>\<open>encryptData\<close> returns, stored and
  shown records, and a signed-in session.\<close>

definition counting_entropy :: entropy where
  "counting_entropy i = of_nat i"



definition envelope_of :: "js_string \<Rightarrow> js_string \<Rightarrow> entropy \<Rightarrow> js_string" where
  "envelope_of s k rng = (case fst (encryptData s k rng) of Inl e \<Rightarrow> [] | Inr e \<Rightarrow> e)"

definition stored_password :: "js_string \<Rightarrow> js_string \<Rightarrow> Password" where
  "stored_password ident t =
     \<lparr>pw_id = ident, pw_user_id = [0x75], pw_category_id = None, pw_title = t,
      pw_username = envelope_of [0x62, 0x6F, 0x62] [0x6B, 0x65, 0x79] counting_entropy,
      pw_password = envelope_of [0x68, 0x75, 0x6E, 0x74, 0x65, 0x72, 0x32] [0x6B, 0x65, 0x79]
        counting_entropy,
      pw_url = None, pw_notes = Some [], pw_password_type = [], pw_created_at = [],
      pw_updated_at = []\<rparr>"

definition shown_password :: "js_string \<Rightarrow> js_string \<Rightarrow> DecryptedPassword" where
  "shown_password ident t =
     \<lparr>dp_id = ident, dp_user_id = [0x75], dp_category_id = None, dp_title = t,
      dp_username = [0x62, 0x6F, 0x62],
      dp_password = [0x68, 0x75, 0x6E, 0x74, 0x65, 0x72, 0x32],
      dp_url = None, dp_notes = None, dp_password_type = [], dp_created_at = [],
      dp_updated_at = [], dp_category = None\<rparr>"

definition open_session :: session where
  "open_session = \<lparr>userId = Some [0x75], masterKey = Some [0x6B, 0x65, 0x79],
                    lastActivity = 0, interval_due = Some 1000\<rparr>"

definition empty_dashboard :: dashboard where
  "empty_dashboard = \<lparr>passwords = [], categories = [], loading = True\<rparr>"

section \<open>Properties of the base64 codec\<close>

lemma unat_code_unit_of_nat: "n < 65536 \<Longrightarrow> unat (of_nat n :: code_unit) = n"
  by (simp add: unat_of_nat)

lemma b64_code_less: "b64_code n < 128"
  by (auto simp: b64_code_def)

lemma unat_b64_char: "unat (b64_char n) = b64_code n"
proof -
  have "b64_code n < 65536"
    using b64_code_less [of n] by simp
  then show ?thesis
    unfolding b64_char_def by (rule unat_code_unit_of_nat)
qed

lemma b64_index_char: "n < 64 \<Longrightarrow> b64_index (b64_char n) = Some n"
  unfolding b64_index_def unat_b64_char Let_def
  by (auto simp: b64_code_def)

lemma b64_char_not_pad: "n < 64 \<Longrightarrow> b64_char n \<noteq> b64_pad"
proof
  assume n: "n < 64" and "b64_char n = b64_pad"
  then have "unat (b64_char n) = 61" by (simp add: b64_pad_def)
  then show False using n unfolding unat_b64_char by (simp add: b64_code_def split: if_splits)
qed

lemma b64_char_not_ws: "n < 64 \<Longrightarrow> \<not> is_ascii_whitespace (b64_char n)"
proof
  assume n: "n < 64" and "is_ascii_whitespace (b64_char n)"
  then have "unat (b64_char n) \<in> {9, 10, 12, 13, 32}"
    by (auto simp: is_ascii_whitespace_def)
  then show False using n unfolding unat_b64_char by (auto simp add: b64_code_def split: if_splits)
qed

lemma b64_pad_not_ws: "\<not> is_ascii_whitespace b64_pad"
  by (simp add: is_ascii_whitespace_def b64_pad_def)

lemma b64_index_pad: "b64_index b64_pad = None"
  by (simp add: b64_index_def b64_pad_def)

lemma unat_byte_less: "unat (b :: byte) < 256"
  using unsigned_less [of b, where ?'a = nat] by simp

lemma sextets_join4:
  "((n div 262144 * 64 + n div 4096 mod 64) * 64 + n div 64 mod 64) * 64 + n mod 64 = (n::nat)"
proof -
  have 1: "n div 4096 = n div 64 div 64" and 2: "n div 262144 = n div 64 div 64 div 64"
    by (simp_all add: div_mult2_eq)
  show ?thesis unfolding 1 2 by (simp only: div_mult_mod_eq)
qed

lemma sextets_join3:
  "(n div 4096 * 64 + n div 64 mod 64) * 64 + n mod 64 = (n::nat)"
proof -
  have 1: "n div 4096 = n div 64 div 64"
    by (simp_all add: div_mult2_eq)
  show ?thesis unfolding 1 by (simp only: div_mult_mod_eq)
qed

lemma sextets_join2: "n div 64 * 64 + n mod 64 = (n::nat)"
  by simp

lemma bytes3:
  fixes a b c :: nat
  assumes "a < 256" "b < 256" "c < 256"
  defines "n \<equiv> a * 65536 + b * 256 + c"
  shows "n div 262144 < 64" and "n div 65536 = a" and "n div 256 mod 256 = b" and "n mod 256 = c"
proof -
  have r: "b * 256 + c < 65536" using assms(2,3) by linarith
  have "n = a * 65536 + (b * 256 + c)" by (simp add: n_def)
  then show 1: "n div 65536 = a" using r by simp
  have "n div 262144 = n div 65536 div 4" by (simp add: div_mult2_eq)
  then show "n div 262144 < 64" using 1 assms(1) by simp
  have n2: "n = (a * 256 + b) * 256 + c" by (simp add: n_def)
  have "((a * 256 + b) * 256 + c) mod 256 = c mod 256" by (rule mod_mult_self3)
  then show "n mod 256 = c" using n2 assms(3) by (simp only: mod_less)
  have "((a * 256 + b) * 256 + c) div 256 = a * 256 + b + c div 256"
    by (rule div_mult_self3) simp
  then have "n div 256 = a * 256 + b" using n2 assms(3) by (simp only: div_less add_0_right)
  then show "n div 256 mod 256 = b" using assms(2) by simp
qed

lemma bytes2:
  fixes a b :: nat
  assumes "a < 256" "b < 256"
  defines "n \<equiv> a * 1024 + b * 4"
  shows "n div 4096 < 64" and "n div 1024 = a" and "n div 4 mod 256 = b"
proof -
  have r: "b * 4 < 1024" using assms(2) by linarith
  show 1: "n div 1024 = a" unfolding n_def using r by simp
  have "n div 4096 = n div 1024 div 4" by (simp add: div_mult2_eq)
  then show "n div 4096 < 64" using 1 assms(1) by simp
  have "n = (a * 256 + b) * 4" by (simp add: n_def)
  then have "n div 4 = a * 256 + b" by simp
  then show "n div 4 mod 256 = b" using assms(2) by simp
qed

lemma bytes1:
  fixes a :: nat
  assumes "a < 256"
  shows "a * 16 div 64 < 64" and "a * 16 div 16 = a"
  using assms by simp_all

lemma strip_padding_Cons:
  assumes x: "x \<noteq> b64_pad"
  shows "strip_padding (x # xs) = x # strip_padding xs"
proof (cases xs rule: rev_cases)
  case Nil
  with x show ?thesis by (simp add: strip_padding_def)
next
  case (snoc ys y)
  note xs = snoc
  show ?thesis
  proof (cases ys rule: rev_cases)
    case Nil
    with xs x show ?thesis by (simp add: strip_padding_def)
  next
    case (snoc zs z)
    with xs show ?thesis by (simp add: strip_padding_def butlast_append)
  qed
qed

lemma filter_ws_base64_encode:
  "filter (\<lambda>c. \<not> is_ascii_whitespace c) (base64_encode bs) = base64_encode bs"
proof (induction bs rule: base64_encode.induct)
  case (1 a b c bs)
  then show ?case
    using bytes3(1) [OF unat_byte_less [of a] unat_byte_less [of b] unat_byte_less [of c]]
    by (simp add: Let_def b64_char_not_ws)
next
  case (2 a b)
  then show ?case
    using bytes2(1) [OF unat_byte_less [of a] unat_byte_less [of b]]
    by (simp add: Let_def b64_char_not_ws b64_pad_not_ws)
next
  case (3 a)
  then show ?case
    using bytes1(1) [OF unat_byte_less [of a]]
    by (simp add: Let_def b64_char_not_ws b64_pad_not_ws)
next
  case 4
  then show ?case by simp
qed

lemma length_base64_encode_mod4: "length (base64_encode bs) mod 4 = 0"
  by (induction bs rule: base64_encode.induct) (simp_all add: Let_def)

lemma strip_padding_pads:
  "strip_padding [b64_pad] = []" "strip_padding [b64_pad, b64_pad] = []"
  by (simp_all add: strip_padding_def)

lemma decode_strip_base64_encode:
  "\<exists>ss. those (map b64_index (strip_padding (base64_encode bs))) = Some ss \<and>
        base64_decode_sextets ss = bs \<and> length ss mod 4 \<noteq> 1"
proof (induction bs rule: base64_encode.induct)
  case (1 a b c bs)
  define n where "n = unat a * 65536 + unat b * 256 + unat c"
  note B = bytes3 [OF unat_byte_less [of a] unat_byte_less [of b] unat_byte_less [of c],
      folded n_def]
  have lt: "n div 262144 < 64" "n div 4096 mod 64 < 64" "n div 64 mod 64 < 64" "n mod 64 < 64"
    using B(1) by simp_all
  from 1 obtain ss where ss: "those (map b64_index (strip_padding (base64_encode bs))) = Some ss"
    "base64_decode_sextets ss = bs" "length ss mod 4 \<noteq> 1" by blast
  have enc: "strip_padding (base64_encode (a # b # c # bs)) =
      b64_char (n div 262144) # b64_char (n div 4096 mod 64) #
      b64_char (n div 64 mod 64) # b64_char (n mod 64) # strip_padding (base64_encode bs)"
    using lt by (simp add: Let_def n_def [symmetric] strip_padding_Cons b64_char_not_pad)
  have th: "those (map b64_index (strip_padding (base64_encode (a # b # c # bs)))) =
      Some (n div 262144 # n div 4096 mod 64 # n div 64 mod 64 # n mod 64 # ss)"
    unfolding enc using lt ss(1) by (simp add: b64_index_char)
  have dec: "base64_decode_sextets (n div 262144 # n div 4096 mod 64 # n div 64 mod 64 # n mod 64 # ss)
      = a # b # c # bs"
  proof -
    have "base64_decode_sextets (n div 262144 # n div 4096 mod 64 # n div 64 mod 64 # n mod 64 # ss)
      = of_nat (n div 65536) # of_nat (n div 256 mod 256) # of_nat (n mod 256) #
        base64_decode_sextets ss"
      by (simp only: base64_decode_sextets.simps Let_def sextets_join4)
    then show ?thesis using ss(2) B(2-4) by simp
  qed
  show ?case using th dec ss(3) by auto
next
  case (2 a b)
  define n where "n = unat a * 1024 + unat b * 4"
  note B = bytes2 [OF unat_byte_less [of a] unat_byte_less [of b], folded n_def]
  have lt: "n div 4096 < 64" "n div 64 mod 64 < 64" "n mod 64 < 64"
    using B(1) by simp_all
  have enc: "strip_padding (base64_encode [a, b]) =
      [b64_char (n div 4096), b64_char (n div 64 mod 64), b64_char (n mod 64)]"
    using lt by (simp add: Let_def n_def [symmetric] strip_padding_Cons b64_char_not_pad
        strip_padding_pads)
  have th: "those (map b64_index (strip_padding (base64_encode [a, b]))) =
      Some [n div 4096, n div 64 mod 64, n mod 64]"
    unfolding enc using lt by (simp add: b64_index_char)
  have dec: "base64_decode_sextets [n div 4096, n div 64 mod 64, n mod 64] = [a, b]"
  proof -
    have "base64_decode_sextets [n div 4096, n div 64 mod 64, n mod 64]
      = [of_nat (n div 1024), of_nat (n div 4 mod 256)]"
      by (simp only: base64_decode_sextets.simps Let_def sextets_join3)
    then show ?thesis using B(2-3) by simp
  qed
  show ?case using th dec by auto
next
  case (3 a)
  define n where "n = unat a * 16"
  note B = bytes1 [OF unat_byte_less [of a], folded n_def]
  have lt: "n div 64 < 64" "n mod 64 < 64"
    using B(1) by simp_all
  have enc: "strip_padding (base64_encode [a]) = [b64_char (n div 64), b64_char (n mod 64)]"
    using lt by (simp add: Let_def n_def [symmetric] strip_padding_Cons b64_char_not_pad
        strip_padding_pads)
  have th: "those (map b64_index (strip_padding (base64_encode [a]))) =
      Some [n div 64, n mod 64]"
    unfolding enc using lt by (simp add: b64_index_char)
  have dec: "base64_decode_sextets [n div 64, n mod 64] = [a]"
  proof -
    have "base64_decode_sextets [n div 64, n mod 64] = [of_nat (n div 16)]"
      by (simp only: base64_decode_sextets.simps sextets_join2)
    then show ?thesis using B(2) by simp
  qed
  show ?case using th dec by auto
next
  case 4
  show ?case by (simp add: strip_padding_def)
qed

lemma length_those: "those xs = Some ys \<Longrightarrow> length ys = length xs"
  by (induction xs arbitrary: ys) (auto split: option.splits)

lemma atob_base64_encode: "atob (base64_encode bs) = Inr (map fromCharCode bs)"
proof -
  obtain ss where ss: "those (map b64_index (strip_padding (base64_encode bs))) = Some ss"
    "base64_decode_sextets ss = bs" "length ss mod 4 \<noteq> 1"
    using decode_strip_base64_encode by blast
  have len: "length (strip_padding (base64_encode bs)) = length ss"
    using length_those [OF ss(1)] by simp
  show ?thesis
    unfolding atob_def filter_ws_base64_encode Let_def
    using ss len by (simp add: length_base64_encode_mod4)
qed

section \<open>Properties of the text codec\<close>

lemma unat_byte_of: "n < 256 \<Longrightarrow> unat (byte_of n) = n"
  by (simp add: unat_of_nat byte_of_def)

lemma unat_unit_of: "n < 65536 \<Longrightarrow> unat (unit_of n) = n"
  by (simp add: unat_of_nat unit_of_def)

lemma mod_numeral_shift: "x < m \<Longrightarrow> (k * m + x) mod m = (x::nat)"
  by simp

lemma utf8_lead1: "b < 128 \<Longrightarrow> utf8_handler utf8_initial b = ([b], utf8_initial)"
  by (simp add: utf8_handler_def utf8_lead_def utf8_initial_def)

lemma utf8_lead2:
  assumes "2 \<le> q" "q < 32"
  shows "utf8_handler utf8_initial (192 + q) =
         ([], utf8_initial\<lparr>bytes_needed := 1, code_point := q\<rparr>)"
proof -
  have "(6 * 32 + q) mod 32 = q" using assms(2) by (rule mod_numeral_shift)
  then have "(192 + q) mod 32 = q" by simp
  then show ?thesis using assms
    by (simp add: utf8_handler_def utf8_lead_def utf8_initial_def)
qed

lemma utf8_lead3:
  assumes "q < 16"
  shows "utf8_handler utf8_initial (224 + q) =
         ([], utf8_initial\<lparr>lower_boundary := (if q = 0 then 0xA0 else 0x80),
                          upper_boundary := (if q = 13 then 0x9F else 0xBF),
                          bytes_needed := 2, code_point := q\<rparr>)"
proof -
  have "(14 * 16 + q) mod 16 = q" using assms by (rule mod_numeral_shift)
  then have "(224 + q) mod 16 = q" by simp
  then show ?thesis using assms
    by (simp add: utf8_handler_def utf8_lead_def utf8_initial_def)
qed

lemma utf8_lead4:
  assumes "q < 5"
  shows "utf8_handler utf8_initial (240 + q) =
         ([], utf8_initial\<lparr>lower_boundary := (if q = 0 then 0x90 else 0x80),
                          upper_boundary := (if q = 4 then 0x8F else 0xBF),
                          bytes_needed := 3, code_point := q\<rparr>)"
proof -
  have "(30 * 8 + q) mod 8 = q" using assms by (intro mod_numeral_shift) simp
  then have "(240 + q) mod 8 = q" by simp
  then show ?thesis using assms
    by (simp add: utf8_handler_def utf8_lead_def utf8_initial_def)
qed

lemma utf8_continuation_more:
  assumes "bytes_needed st \<noteq> 0" "lower_boundary st \<le> 128 + r" "128 + r \<le> upper_boundary st"
    "r < 64" "bytes_seen st + 1 \<noteq> bytes_needed st"
  shows "utf8_handler st (128 + r) =
     ([], st\<lparr>lower_boundary := 0x80, upper_boundary := 0xBF,
                code_point := code_point st * 64 + r, bytes_seen := bytes_seen st + 1\<rparr>)"
proof -
  have "(2 * 64 + r) mod 64 = r" using assms(4) by (rule mod_numeral_shift)
  then have "(128 + r) mod 64 = r" by simp
  then show ?thesis using assms(1-3,5)
    by (simp add: utf8_handler_def Let_def)
qed

lemma utf8_continuation_last:
  assumes "bytes_needed st \<noteq> 0" "lower_boundary st \<le> 128 + r" "128 + r \<le> upper_boundary st"
    "r < 64" "bytes_seen st + 1 = bytes_needed st"
  shows "utf8_handler st (128 + r) = ([code_point st * 64 + r], utf8_initial)"
proof -
  have "(2 * 64 + r) mod 64 = r" using assms(4) by (rule mod_numeral_shift)
  then have "(128 + r) mod 64 = r" by simp
  then show ?thesis using assms(1-3,5)
    by (simp add: utf8_handler_def Let_def)
qed

lemma run_step0:
  "unat b = n \<Longrightarrow> utf8_handler st n = ([], st') \<Longrightarrow>
   utf8_decode_run st (b # bs) = utf8_decode_run st' bs"
  by simp

lemma run_step1:
  "unat b = n \<Longrightarrow> utf8_handler st n = ([c], st') \<Longrightarrow>
   utf8_decode_run st (b # bs) = c # utf8_decode_run st' bs"
  by simp

lemma decode_1byte:
  assumes "cp < 0x80"
  shows "utf8_decode_run utf8_initial (utf8_encode_code_point cp @ bs) =
         cp # utf8_decode_run utf8_initial bs"
proof -
  have enc: "utf8_encode_code_point cp = [byte_of cp]"
    using assms by (simp add: utf8_encode_code_point_def)
  have u: "unat (byte_of cp) = cp" using assms by (intro unat_byte_of) simp
  have "cp < 128" using assms by simp
  from run_step1 [OF u utf8_lead1 [OF this]] show ?thesis unfolding enc by simp
qed

lemma decode_2byte:
  assumes "0x80 \<le> cp" "cp < 0x800"
  shows "utf8_decode_run utf8_initial (utf8_encode_code_point cp @ bs) =
         cp # utf8_decode_run utf8_initial bs"
proof -
  define q r where "q = cp div 64" and "r = cp mod 64"
  have cp: "cp = q * 64 + r" and r: "r < 64" by (simp_all add: q_def r_def)
  have q: "2 \<le> q" "q < 32" using cp r assms by linarith+
  have enc: "utf8_encode_code_point cp = [byte_of (192 + q), byte_of (128 + r)]"
    using assms by (simp add: utf8_encode_code_point_def q_def r_def)
  have u: "unat (byte_of (192 + q)) = 192 + q" "unat (byte_of (128 + r)) = 128 + r"
    using q r by (simp_all add: unat_byte_of)
  let ?s1 = "utf8_initial\<lparr>bytes_needed := 1, code_point := q\<rparr>"
  have "utf8_decode_run utf8_initial (byte_of (192 + q) # byte_of (128 + r) # bs) =
      utf8_decode_run ?s1 (byte_of (128 + r) # bs)"
    by (rule run_step0 [OF u(1) utf8_lead2 [OF q]])
  also have "\<dots> = (code_point ?s1 * 64 + r) # utf8_decode_run utf8_initial bs"
    by (rule run_step1 [OF u(2) utf8_continuation_last]) (use r in \<open>simp_all add: utf8_initial_def\<close>)
  finally show ?thesis unfolding enc by (simp add: cp)
qed

lemma decode_3byte:
  assumes "0x800 \<le> cp" "cp < 0x10000" "\<not> (0xD800 \<le> cp \<and> cp \<le> 0xDFFF)"
  shows "utf8_decode_run utf8_initial (utf8_encode_code_point cp @ bs) =
         cp # utf8_decode_run utf8_initial bs"
proof -
  define q1 r1 where "q1 = cp div 64" and "r1 = cp mod 64"
  define q2 r2 where "q2 = q1 div 64" and "r2 = q1 mod 64"
  have cp: "cp = q1 * 64 + r1" and r1: "r1 < 64" by (simp_all add: q1_def r1_def)
  have q1: "q1 = q2 * 64 + r2" and r2: "r2 < 64" by (simp_all add: q2_def r2_def)
  have e: "cp div 4096 = cp div 64 div 64" by (simp add: div_mult2_eq)
  have d: "cp div 4096 = q2" "cp div 64 mod 64 = r2"
    by (simp_all add: e q2_def r2_def q1_def)
  have q2: "q2 < 16" using cp q1 r1 r2 assms by linarith
  have lo: "q2 = 0 \<Longrightarrow> 32 \<le> r2" using cp q1 r1 r2 assms by linarith
  have hi: "q2 = 13 \<Longrightarrow> r2 < 32" using cp q1 r1 r2 assms by linarith
  have enc: "utf8_encode_code_point cp = [byte_of (224 + q2), byte_of (128 + r2), byte_of (128 + r1)]"
    using assms by (simp add: utf8_encode_code_point_def d r1_def)
  have u: "unat (byte_of (224 + q2)) = 224 + q2" "unat (byte_of (128 + r2)) = 128 + r2"
    "unat (byte_of (128 + r1)) = 128 + r1"
    using q2 r1 r2 by (simp_all add: unat_byte_of)
  let ?s1 = "utf8_initial\<lparr>lower_boundary := (if q2 = 0 then 0xA0 else 0x80),
                          upper_boundary := (if q2 = 13 then 0x9F else 0xBF),
                          bytes_needed := 2, code_point := q2\<rparr>"
  let ?s2 = "?s1\<lparr>lower_boundary := 0x80, upper_boundary := 0xBF,
                   code_point := code_point ?s1 * 64 + r2, bytes_seen := bytes_seen ?s1 + 1\<rparr>"
  have "utf8_decode_run utf8_initial (byte_of (224 + q2) # byte_of (128 + r2) # byte_of (128 + r1) # bs) =
      utf8_decode_run ?s1 (byte_of (128 + r2) # byte_of (128 + r1) # bs)"
    by (rule run_step0 [OF u(1) utf8_lead3 [OF q2]])
  also have "\<dots> = utf8_decode_run ?s2 (byte_of (128 + r1) # bs)"
    by (rule run_step0 [OF u(2) utf8_continuation_more])
      (use r2 lo hi in \<open>auto simp add: utf8_initial_def\<close>)
  also have "\<dots> = (code_point ?s2 * 64 + r1) # utf8_decode_run utf8_initial bs"
    by (rule run_step1 [OF u(3) utf8_continuation_last])
      (use r1 in \<open>simp_all add: utf8_initial_def\<close>)
  finally show ?thesis unfolding enc by (simp add: cp q1)
qed

lemma decode_4byte:
  assumes "0x10000 \<le> cp" "cp < 0x110000"
  shows "utf8_decode_run utf8_initial (utf8_encode_code_point cp @ bs) =
         cp # utf8_decode_run utf8_initial bs"
proof -
  define q1 r1 where "q1 = cp div 64" and "r1 = cp mod 64"
  define q2 r2 where "q2 = q1 div 64" and "r2 = q1 mod 64"
  define q3 r3 where "q3 = q2 div 64" and "r3 = q2 mod 64"
  have cp: "cp = q1 * 64 + r1" and r1: "r1 < 64" by (simp_all add: q1_def r1_def)
  have q1: "q1 = q2 * 64 + r2" and r2: "r2 < 64" by (simp_all add: q2_def r2_def)
  have q2: "q2 = q3 * 64 + r3" and r3: "r3 < 64" by (simp_all add: q3_def r3_def)
  have e: "cp div 4096 = cp div 64 div 64" "cp div 262144 = cp div 64 div 64 div 64"
    by (simp_all add: div_mult2_eq)
  have d: "cp div 262144 = q3" "cp div 4096 mod 64 = r3" "cp div 64 mod 64 = r2"
    by (simp_all add: e q3_def r3_def q2_def r2_def q1_def)
  have q3: "q3 < 5" using cp q1 q2 r1 r2 r3 assms by linarith
  have lo: "q3 = 0 \<Longrightarrow> 16 \<le> r3" using cp q1 q2 r1 r2 r3 assms by linarith
  have hi: "q3 = 4 \<Longrightarrow> r3 < 16" using cp q1 q2 r1 r2 r3 assms by linarith
  have enc: "utf8_encode_code_point cp =
      [byte_of (240 + q3), byte_of (128 + r3), byte_of (128 + r2), byte_of (128 + r1)]"
    using assms by (simp add: utf8_encode_code_point_def d r1_def)
  have u: "unat (byte_of (240 + q3)) = 240 + q3" "unat (byte_of (128 + r3)) = 128 + r3"
    "unat (byte_of (128 + r2)) = 128 + r2" "unat (byte_of (128 + r1)) = 128 + r1"
    using q3 r1 r2 r3 by (simp_all add: unat_byte_of)
  let ?s1 = "utf8_initial\<lparr>lower_boundary := (if q3 = 0 then 0x90 else 0x80),
                          upper_boundary := (if q3 = 4 then 0x8F else 0xBF),
                          bytes_needed := 3, code_point := q3\<rparr>"
  let ?s2 = "?s1\<lparr>lower_boundary := 0x80, upper_boundary := 0xBF,
                   code_point := code_point ?s1 * 64 + r3, bytes_seen := bytes_seen ?s1 + 1\<rparr>"
  let ?s3 = "?s2\<lparr>lower_boundary := 0x80, upper_boundary := 0xBF,
                   code_point := code_point ?s2 * 64 + r2, bytes_seen := bytes_seen ?s2 + 1\<rparr>"
  have "utf8_decode_run utf8_initial
        (byte_of (240 + q3) # byte_of (128 + r3) # byte_of (128 + r2) # byte_of (128 + r1) # bs) =
      utf8_decode_run ?s1 (byte_of (128 + r3) # byte_of (128 + r2) # byte_of (128 + r1) # bs)"
    by (rule run_step0 [OF u(1) utf8_lead4 [OF q3]])
  also have "\<dots> = utf8_decode_run ?s2 (byte_of (128 + r2) # byte_of (128 + r1) # bs)"
    by (rule run_step0 [OF u(2) utf8_continuation_more])
      (use r3 lo hi in \<open>auto simp add: utf8_initial_def\<close>)
  also have "\<dots> = utf8_decode_run ?s3 (byte_of (128 + r1) # bs)"
    by (rule run_step0 [OF u(3) utf8_continuation_more])
      (use r2 in \<open>auto simp add: utf8_initial_def\<close>)
  also have "\<dots> = (code_point ?s3 * 64 + r1) # utf8_decode_run utf8_initial bs"
    by (rule run_step1 [OF u(4) utf8_continuation_last])
      (use r1 in \<open>simp_all add: utf8_initial_def\<close>)
  finally show ?thesis unfolding enc by (simp add: cp q1 q2)
qed

lemma utf8_decode_encode_code_point:
  assumes "is_scalar_value cp"
  shows "utf8_decode_run utf8_initial (utf8_encode_code_point cp @ bs) =
         cp # utf8_decode_run utf8_initial bs"
proof -
  consider "cp < 0x80" | "0x80 \<le> cp" "cp < 0x800" | "0x800 \<le> cp" "cp < 0x10000"
    | "0x10000 \<le> cp" by linarith
  then show ?thesis
    using assms decode_1byte decode_2byte decode_3byte decode_4byte
    unfolding is_scalar_value_def by cases blast+
qed

lemma unat_code_unit_less: "unat (c :: code_unit) < 65536"
  using unsigned_less [of c, where ?'a = nat] by simp

lemma unit_of_unat: "unit_of (unat c) = c"
  by (simp add: unit_of_def)

lemma scalar_of_unit_scalar: "is_scalar_value (scalar_of_unit c)"
  using unat_code_unit_less [of c]
  by (auto simp: scalar_of_unit_def is_scalar_value_def is_high_surrogate_def is_low_surrogate_def)

lemma surrogate_pair:
  assumes "is_high_surrogate c" "is_low_surrogate d"
  defines "cp \<equiv> 0x10000 + (unat c - 0xD800) * 0x400 + (unat d - 0xDC00)"
  shows "is_scalar_value cp" and "utf16_encode_code_point cp = [c, d]" and "0x10000 \<le> cp"
proof -
  define h l where "h = unat c - 0xD800" and "l = unat d - 0xDC00"
  have h: "h < 1024" "0xD800 + h = unat c" and l: "l < 1024" "0xDC00 + l = unat d"
    using assms(1,2) by (auto simp: h_def l_def is_high_surrogate_def is_low_surrogate_def)
  have cp: "cp = 0x10000 + (h * 1024 + l)" by (simp add: cp_def h_def l_def)
  show "is_scalar_value cp" unfolding is_scalar_value_def using cp h(1) l(1) by linarith
  show "0x10000 \<le> cp" using cp by simp
  have "(h * 1024 + l) div 1024 = h" "(h * 1024 + l) mod 1024 = l" using l(1) by simp_all
  then show "utf16_encode_code_point cp = [c, d]"
    unfolding utf16_encode_code_point_def cp using h(2) l(2) by (simp add: unit_of_unat)
qed

lemma code_points_scalar: "list_all is_scalar_value (code_points s)"
  by (induction s rule: code_points.induct)
    (simp_all add: scalar_of_unit_scalar surrogate_pair(1))

lemma utf8_decode_run_Nil: "utf8_decode_run utf8_initial [] = []"
  by (simp add: utf8_initial_def)

lemma utf8_decode_encode_code_points:
  "list_all is_scalar_value cps \<Longrightarrow>
   utf8_decode_run utf8_initial (concat (map utf8_encode_code_point cps)) = cps"
  by (induction cps) (simp_all add: utf8_decode_encode_code_point utf8_decode_run_Nil
      del: utf8_decode_run.simps)

lemma utf8_decode_TextEncoder_encode:
  "utf8_decode_run utf8_initial (TextEncoder_encode s) = code_points s"
  unfolding TextEncoder_encode_def
  by (rule utf8_decode_encode_code_points) (rule code_points_scalar)

lemma TextDecoder_decode_TextEncoder_encode:
  "TextDecoder_decode (TextEncoder_encode s) =
   concat (map utf16_encode_code_point (skip_bom (code_points s)))"
  by (simp add: TextDecoder_decode_def utf8_decode_TextEncoder_encode)

lemma utf16_scalar_of_unit:
  "\<not> is_high_surrogate c \<Longrightarrow> \<not> is_low_surrogate c \<Longrightarrow>
   utf16_encode_code_point (scalar_of_unit c) = [c]"
  using unat_code_unit_less [of c]
  by (simp add: scalar_of_unit_def utf16_encode_code_point_def unit_of_unat)

lemma utf16_code_points: "isWellFormed s \<Longrightarrow> concat (map utf16_encode_code_point (code_points s)) = s"
  by (induction s rule: code_points.induct)
    (auto simp add: utf16_scalar_of_unit surrogate_pair(2) split: if_splits)

lemma hd_code_points:
  "code_points s = cp # cps \<Longrightarrow> cp = 0xFEFF \<Longrightarrow> \<exists>t. s = 0xFEFF # t"
proof (induction s rule: code_points.induct)
  case (1 c d cs)
  show ?case
  proof (cases "is_high_surrogate c \<and> is_low_surrogate d")
    case True
    then have "0x10000 \<le> cp" using 1(3) surrogate_pair(3) [of c d] by auto
    then show ?thesis using 1(4) by simp
  next
    case False
    then have "scalar_of_unit c = 0xFEFF" using 1(3,4) by auto
    then have "unat c = 0xFEFF" by (simp add: scalar_of_unit_def split: if_splits)
    then have "c = 0xFEFF" by (metis unit_of_unat unit_of_def of_nat_numeral)
    then show ?thesis by simp
  qed
next
  case (2 c)
  then have "scalar_of_unit c = 0xFEFF" by simp
  then have "unat c = 0xFEFF" by (simp add: scalar_of_unit_def split: if_splits)
  then have "c = 0xFEFF" by (metis unit_of_unat unit_of_def of_nat_numeral)
  then show ?case by simp
next
  case 3
  then show ?case by simp
qed

lemma skip_bom_code_points: "\<not> starts_with_bom s \<Longrightarrow> skip_bom (code_points s) = code_points s"
  using hd_code_points [of s]
  by (auto simp: skip_bom_def starts_with_bom_def split: list.splits)

lemma TextDecoder_roundtrip:
  "isWellFormed s \<Longrightarrow> \<not> starts_with_bom s \<Longrightarrow> TextDecoder_decode (TextEncoder_encode s) = s"
  by (simp add: TextDecoder_decode_TextEncoder_encode skip_bom_code_points utf16_code_points)

section \<open>Properties of counter mode and GCM\<close>

lemma length_be_bytes: "length (be_bytes n w) = n"
  by (simp add: be_bytes_def)

lemma length_bytes_of_block: "length (bytes_of_block x) = 16"
  by (simp add: bytes_of_block_def length_be_bytes)

lemma length_xor_bytes: "length (xor_bytes xs ys) = min (length xs) (length ys)"
  by (simp add: xor_bytes_def)

lemma xor_bytes_cancel: "length xs \<le> length ys \<Longrightarrow> xor_bytes (xor_bytes xs ys) ys = xs"
proof (induction xs arbitrary: ys)
  case Nil
  then show ?case by (simp add: xor_bytes_def)
next
  case (Cons x xs)
  then obtain y ys' where ys: "ys = y # ys'" by (cases ys) auto
  with Cons show ?case by (simp add: xor_bytes_def bit.xor_left_self ac_simps)
qed

lemma GCTR_Nil: "GCTR K cb [] = []"
  by (simp add: GCTR.simps)

lemma GCTR_step:
  "bs \<noteq> [] \<Longrightarrow> GCTR K cb bs =
     xor_bytes (take 16 bs) (bytes_of_block (CIPH K cb)) @ GCTR K (inc32 cb) (drop 16 bs)"
  by (subst GCTR.simps) simp

lemma length_GCTR: "length (GCTR K cb bs) = length bs"
proof (induction K cb bs rule: GCTR.induct)
  case (1 K cb bs)
  show ?case
  proof (cases "bs = []")
    case True
    then show ?thesis by (simp add: GCTR.simps)
  next
    case False
    with 1 show ?thesis
      by (subst GCTR.simps) (simp add: length_xor_bytes length_bytes_of_block)
  qed
qed

lemma GCTR_involution: "GCTR K cb (GCTR K cb bs) = bs"
proof (induction K cb bs rule: GCTR.induct)
  case (1 K cb bs)
  show ?case
  proof (cases "bs = []")
    case True
    then show ?thesis by (simp add: GCTR.simps)
  next
    case False
    define ks where "ks = bytes_of_block (CIPH K cb)"
    define hd' where "hd' = xor_bytes (take 16 bs) ks"
    have ks: "length ks = 16" by (simp add: ks_def length_bytes_of_block)
    have len: "length hd' = min 16 (length bs)" by (simp add: hd'_def length_xor_bytes ks)
    have unfold: "GCTR K cb bs = hd' @ GCTR K (inc32 cb) (drop 16 bs)"
      using False by (subst GCTR.simps) (simp add: hd'_def ks_def)
    have ne: "hd' @ GCTR K (inc32 cb) (drop 16 bs) \<noteq> []"
      using False len by (cases bs) auto
    have tk: "take 16 (hd' @ GCTR K (inc32 cb) (drop 16 bs)) = hd'"
      using len by (auto simp: min_def length_GCTR GCTR_Nil)
    have dr: "drop 16 (hd' @ GCTR K (inc32 cb) (drop 16 bs)) = GCTR K (inc32 cb) (drop 16 bs)"
      using len by (auto simp: min_def length_GCTR GCTR_Nil)
    have "GCTR K cb (hd' @ GCTR K (inc32 cb) (drop 16 bs)) =
        xor_bytes hd' ks @ GCTR K (inc32 cb) (GCTR K (inc32 cb) (drop 16 bs))"
      using GCTR_step [OF ne, of K cb] by (simp only: tk dr ks_def)
    also have "xor_bytes hd' ks = take 16 bs"
      unfolding hd'_def by (rule xor_bytes_cancel) (simp add: ks)
    also have "GCTR K (inc32 cb) (GCTR K (inc32 cb) (drop 16 bs)) = drop 16 bs"
      using 1 False by simp
    finally show ?thesis unfolding unfold by simp
  qed
qed

lemma length_gcm_tag: "length (gcm_tag K iv A C) = 16"
  by (simp add: gcm_tag_def Let_def length_GCTR length_bytes_of_block)








lemma length_gcm_encrypt: "length (gcm_encrypt K iv P) = length P + 16"
  by (simp add: gcm_encrypt_def Let_def length_GCTR length_gcm_tag)

lemma gcm_decrypt_short: "length data < 16 \<Longrightarrow> gcm_decrypt K iv data = Inl OperationError"
  by (simp add: gcm_decrypt_def)

lemma gcm_decrypt_append:
  assumes "length T = 16"
  shows "gcm_decrypt K iv (C @ T) =
     (if gcm_tag K iv [] C = T then Inr (GCTR K (inc32 (gcm_J0 (CIPH K 0) iv)) C)
      else Inl OperationError)"
  using assms by (simp add: gcm_decrypt_def Let_def)

lemma gcm_decrypt_encrypt: "gcm_decrypt K iv (gcm_encrypt K iv P) = Inr P"
  unfolding gcm_encrypt_def Let_def
  by (simp add: gcm_decrypt_append length_gcm_tag GCTR_involution)

section \<open>Properties of \<^verbatim>\<open>encryptData\<close> and \<^verbatim>\<open>decryptData\<close>\<close>

lemma length_drawn: "length (drawn_salt rng) = 16" "length (drawn_iv rng) = 12"
  by (simp_all add: drawn_salt_def drawn_iv_def getRandomValues_def)

lemma charCodeAt0_fromCharCode: "charCodeAt0 (fromCharCode b) = b"
  unfolding charCodeAt0_def fromCharCode_def
  by (simp add: ucast_up_ucast_id is_up)

lemma fromCharCode_le: "fromCharCode b \<le> 0xFF"
proof -
  have "unat b < 2 ^ 16" using unat_byte_less [of b] by simp
  then have "unat (fromCharCode b) = unat b"
    by (simp add: fromCharCode_def unsigned_ucast_eq take_bit_nat_eq_self)
  then have "unat (fromCharCode b) \<le> unat (0xFF :: code_unit)"
    using unat_byte_less [of b] by simp
  then show ?thesis by (simp only: word_le_nat_alt)
qed

lemma btoa_fromCharCode: "btoa (map fromCharCode bs) = Inr (base64_encode bs)"
proof -
  have "list_all (\<lambda>c. c \<le> 0xFF) (map fromCharCode bs)"
    by (simp add: list_all_iff fromCharCode_le)
  moreover have "map ucast (map fromCharCode bs) = bs"
    using charCodeAt0_fromCharCode by (simp add: charCodeAt0_def map_idI)
  ultimately show ?thesis by (simp add: btoa_def del: map_map)
qed

lemma encryptData_eq:
  "encryptData s k rng =
     (Inr (base64_encode (drawn_salt rng @ drawn_iv rng @
        gcm_encrypt (deriveKey k (map fromCharCode (drawn_salt rng))) (drawn_iv rng)
          (TextEncoder_encode s))),
      snd (getRandomValues 12 (snd (getRandomValues 16 rng))))"
  unfolding encryptData_def Let_def drawn_salt_def drawn_iv_def
  by (simp add: case_prod_beta btoa_fromCharCode del: map_append)

lemma decryptData_base64_encode:
  "decryptData (base64_encode bs) k =
     then_result (gcm_decrypt (deriveKey k (map fromCharCode (take 16 bs)))
                    (take 12 (drop 16 bs)) (drop 28 bs))
       (\<lambda>decryptedData. Inr (TextDecoder_decode decryptedData))"
proof -
  have "map charCodeAt0 (map fromCharCode bs) = bs"
    by (simp add: charCodeAt0_fromCharCode map_idI)
  then show ?thesis
    unfolding decryptData_def atob_base64_encode Let_def
    by (simp add: then_result_def del: map_map)
qed

lemma decryptData_envelope:
  assumes "length salt = 16" "length iv = 12"
  shows "decryptData (base64_encode (salt @ iv @ data)) k =
     then_result (gcm_decrypt (deriveKey k (map fromCharCode salt)) iv data)
       (\<lambda>decryptedData. Inr (TextDecoder_decode decryptedData))"
  unfolding decryptData_base64_encode using assms by simp

lemma decryptData_encryptData:
  "\<exists>e. fst (encryptData s k rng) = Inr e \<and>
        decryptData e k = Inr (TextDecoder_decode (TextEncoder_encode s))"
  unfolding encryptData_eq
  by (simp add: decryptData_envelope length_drawn gcm_decrypt_encrypt then_result_def)

lemma then_result_Inr: "then_result (Inr v) f = f v"
  by (simp add: then_result_def)

lemma roundtrip_text:
  "then_result (fst (encryptData s k rng)) (\<lambda>e. decryptData e k) =
   Inr (TextDecoder_decode (TextEncoder_encode s))"
  using decryptData_encryptData [of s k rng] by (auto simp: then_result_def)

lemma envelope_of_eq: "fst (encryptData s k rng) = Inr (envelope_of s k rng)"
  by (simp add: envelope_of_def encryptData_eq)

lemma decryptData_envelope_of_eq:
  "decryptData (envelope_of s k rng) k' =
   then_result (fst (encryptData s k rng)) (\<lambda>e. decryptData e k')"
  by (simp add: envelope_of_eq then_result_Inr)

lemma scalar_of_unit_bom: "scalar_of_unit 0xFEFF = 0xFEFF"
  by (simp add: scalar_of_unit_def is_high_surrogate_def is_low_surrogate_def)

section \<open>Properties of \<^verbatim>\<open>hashMasterKey\<close>\<close>

lemma length_sha256: "length (sha256 m) = 32"
  by (simp add: sha256_def length_be_bytes split: prod.splits)

text \<open>The digest of \<^verbatim>\<open>"abc"\<close>, as FIPS 180-4 gives it.\<close>

lemma sha256_abc:
  "sha256 [0x61, 0x62, 0x63] =
    [0xBA, 0x78, 0x16, 0xBF, 0x8F, 0x01, 0xCF, 0xEA, 0x41, 0x41, 0x40, 0xDE, 0x5D, 0xAE, 0x22, 0x23,
     0xB0, 0x03, 0x61, 0xA3, 0x96, 0x17, 0x7A, 0x9C, 0xB4, 0x10, 0xFF, 0x61, 0xF2, 0x00, 0x15, 0xAD]"
  by code_simp

lemma hex_digit_0: "hex_digit 0 = 48"
  by (simp add: hex_digit_def unit_of_def)

lemma padStart_toString16:
  assumes "n < 256"
  shows "padStart 2 48 (toString16 n) = [hex_digit (n div 16), hex_digit (n mod 16)]"
proof (cases "n < 16")
  case True
  then show ?thesis
    by (simp add: toString16.simps [of n] padStart_def hex_digit_0)
next
  case False
  have "n div 16 < 16" using assms by simp
  then have "toString16 (n div 16) = [hex_digit (n div 16)]"
    by (simp add: toString16.simps [of "n div 16"])
  then show ?thesis using False
    by (simp add: toString16.simps [of n] padStart_def)
qed

lemma hex_digit_lower: "d < 16 \<Longrightarrow> is_lower_hex (hex_digit d)"
proof -
  assume d: "d < 16"
  then have "unat (hex_digit d) = (if d < 10 then 48 + d else 87 + d)"
    unfolding hex_digit_def by (intro unat_unit_of) auto
  then show ?thesis using d by (auto simp: is_lower_hex_def)
qed

lemma hashMasterKey_hex:
  "hashMasterKey k =
     concat (map (\<lambda>b. [hex_digit (unat b div 16), hex_digit (unat b mod 16)])
       (sha256 (TextEncoder_encode k)))"
  by (simp add: hashMasterKey_def Let_def padStart_toString16 unat_byte_less)

lemma length_concat_pairs: "length (concat (map (\<lambda>b. [f b, g b]) xs)) = 2 * length xs"
  by (induction xs) simp_all

lemma list_all_concat_pairs:
  "list_all P (concat (map (\<lambda>b. [f b, g b]) xs)) = list_all (\<lambda>b. P (f b) \<and> P (g b)) xs"
  by (induction xs) simp_all

section \<open>The salt as a string\<close>

lemma unat_fromCharCode: "unat (fromCharCode b) = unat b"
proof -
  have "unat b < 2 ^ 16" using unat_byte_less [of b] by simp
  then show ?thesis
    by (simp add: fromCharCode_def unsigned_ucast_eq take_bit_nat_eq_self)
qed

lemma fromCharCode_not_surrogate:
  "\<not> is_high_surrogate (fromCharCode b)" "\<not> is_low_surrogate (fromCharCode b)"
  using unat_byte_less [of b]
  by (simp_all add: is_high_surrogate_def is_low_surrogate_def unat_fromCharCode)

lemma code_points_Cons_plain:
  "\<not> is_high_surrogate c \<Longrightarrow> code_points (c # cs) = scalar_of_unit c # code_points cs"
  by (cases cs) simp_all

lemma code_points_fromCharCode: "code_points (map fromCharCode bs) = map unat bs"
  by (induction bs)
    (simp_all add: code_points_Cons_plain fromCharCode_not_surrogate scalar_of_unit_def
      unat_fromCharCode)

lemma byte_of_unat: "byte_of (unat b) = b"
  by (simp add: byte_of_def)

lemma utf8_encode_byte:
  "utf8_encode_code_point (unat (b :: byte)) =
     (if b < 0x80 then [b]
      else [byte_of (0xC0 + unat b div 64), byte_of (0x80 + unat b mod 64)])"
proof -
  have "(b < 0x80) = (unat b < 0x80)" by (simp add: word_less_nat_alt)
  then show ?thesis
    using unat_byte_less [of b] by (simp add: utf8_encode_code_point_def byte_of_unat)
qed

lemma TextEncoder_encode_fromCharCode:
  "TextEncoder_encode (map fromCharCode bs) =
     concat (map (\<lambda>b. if b < 0x80 then [b]
                       else [byte_of (0xC0 + unat b div 64), byte_of (0x80 + unat b mod 64)]) bs)"
  by (simp add: TextEncoder_encode_def code_points_fromCharCode utf8_encode_byte comp_def)

lemma length_effective_salt:
  "length (TextEncoder_encode (map fromCharCode bs)) =
     length bs + length (filter (\<lambda>b. 0x80 \<le> b) bs)"
  unfolding TextEncoder_encode_fromCharCode
  by (induction bs) (auto simp: not_less)

lemma effective_salt_eq_iff:
  "(TextEncoder_encode (map fromCharCode bs) = bs) = list_all (\<lambda>b. b < 0x80) bs"
proof
  assume "TextEncoder_encode (map fromCharCode bs) = bs"
  then have "length (TextEncoder_encode (map fromCharCode bs)) = length bs" by simp
  then have "filter (\<lambda>b. 0x80 \<le> b) bs = []"
    unfolding length_effective_salt by simp
  then show "list_all (\<lambda>b. b < 0x80) bs"
    by (auto simp: filter_empty_conv list_all_iff not_le)
next
  assume "list_all (\<lambda>b. b < 0x80) bs"
  then show "TextEncoder_encode (map fromCharCode bs) = bs"
    unfolding TextEncoder_encode_fromCharCode by (induction bs) simp_all
qed

section \<open>Master keys that derive the same key\<close>










section \<open>Master keys that open the same envelope\<close>










section \<open>Failures of \<^verbatim>\<open>decryptData\<close>\<close>

lemma atob_error: "atob e = Inl err \<Longrightarrow> err = InvalidCharacterError"
  by (auto simp: atob_def Let_def split: if_splits option.splits)

lemma gcm_decrypt_error: "gcm_decrypt K iv data = Inl err \<Longrightarrow> err = OperationError"
  by (auto simp: gcm_decrypt_def Let_def split: if_splits)

lemma decryptData_atob_error: "atob e = Inl err \<Longrightarrow> decryptData e k = Inl InvalidCharacterError"
  using atob_error [of e err] by (simp add: decryptData_def then_result_def)

lemma decryptData_invalid_iff:
  "(decryptData e k = Inl InvalidCharacterError) = (atob e = Inl InvalidCharacterError)"
proof (cases "atob e")
  case (Inl err)
  then show ?thesis using atob_error [OF Inl] decryptData_atob_error [OF Inl] by simp
next
  case (Inr bin)
  then show ?thesis
    using gcm_decrypt_error
    by (auto simp: decryptData_def then_result_def Let_def split: sum.splits)
qed

lemma decryptData_short:
  assumes "atob e = Inr bin" "length bin < 44"
  shows "decryptData e k = Inl OperationError"
proof -
  have "length (drop 28 (map charCodeAt0 bin)) < 16" using assms(2) by simp
  then show ?thesis
    using assms(1) by (simp add: decryptData_def then_result_def Let_def gcm_decrypt_short)
qed

lemma atob_AAAA: "atob [0x41, 0x41, 0x41, 0x41] = Inr [0, 0, 0]"
  by (simp add: atob_def is_ascii_whitespace_def strip_padding_def b64_pad_def b64_index_def
      fromCharCode_def)

lemma atob_bang: "atob [0x21] = Inl InvalidCharacterError"
  by (simp add: atob_def is_ascii_whitespace_def)

section \<open>Properties of \<^verbatim>\<open>verifyMasterKey\<close>\<close>


lemma maybeSingle_data:
  "(\<not> response_error (maybeSingle rows) \<and> response_data (maybeSingle rows) \<noteq> None) =
   (\<exists>r. rows = Some [r])"
  by (auto simp: maybeSingle_def split: option.splits list.splits)

lemma verifyMasterKey_fallback:
  assumes "signInWithPassword db login_email key = AuthError"
  shows "success (verifyMasterKey db key) =
     (\<exists>rows r. users_table db = Some rows \<and>
        filter (\<lambda>u. users_master_key_hash u = hashMasterKey key) rows = [r])"
    and "success (verifyMasterKey db key) \<Longrightarrow>
      \<exists>rows r. users_table db = Some rows \<and>
        filter (\<lambda>u. users_master_key_hash u = hashMasterKey key) rows = [r] \<and>
        result_userId (verifyMasterKey db key) = Some (users_id r)"
proof -
  let ?m = "maybeSingle (select_eq users_master_key_hash (hashMasterKey key) (users_table db))"
  have v: "verifyMasterKey db key =
      (if response_error ?m \<or> response_data ?m = None
       then \<lparr>success = False, result_userId = None\<rparr>
       else \<lparr>success = True, result_userId = map_option users_id (response_data ?m)\<rparr>)"
    using assms by (simp add: verifyMasterKey_def Let_def)
  have m: "(\<not> response_error ?m \<and> response_data ?m \<noteq> None) =
      (\<exists>rows r. users_table db = Some rows \<and>
        filter (\<lambda>u. users_master_key_hash u = hashMasterKey key) rows = [r])"
    unfolding maybeSingle_data by (auto simp: select_eq_def)
  show "success (verifyMasterKey db key) =
     (\<exists>rows r. users_table db = Some rows \<and>
        filter (\<lambda>u. users_master_key_hash u = hashMasterKey key) rows = [r])"
    unfolding m [symmetric] v by simp
  assume "success (verifyMasterKey db key)"
  then have ok: "\<not> response_error ?m \<and> response_data ?m \<noteq> None"
    unfolding v by (simp split: if_splits)
  then obtain rows r where r: "users_table db = Some rows"
      "filter (\<lambda>u. users_master_key_hash u = hashMasterKey key) rows = [r]"
    unfolding m by blast
  then have "response_data ?m = Some r" by (simp add: select_eq_def maybeSingle_def)
  then show "\<exists>rows r. users_table db = Some rows \<and>
        filter (\<lambda>u. users_master_key_hash u = hashMasterKey key) rows = [r] \<and>
        result_userId (verifyMasterKey db key) = Some (users_id r)"
    using r ok unfolding v by auto
qed






section \<open>Properties of \<^verbatim>\<open>loadData\<close>\<close>

lemma loadData_passwords:
  assumes "truthy (userId auth)" "masterKey auth = Some key" "key \<noteq> []"
  shows "passwords (loadData auth categoriesData (Some rows) st) =
     map the (filter (\<lambda>p. p \<noteq> None) (map (decrypt_password key categoriesData) rows))"
    and "loading (loadData auth categoriesData (Some rows) st) = False"
  using assms by (simp_all add: loadData_def truthy_def Let_def)

lemma decrypt_password_None:
  "(decrypt_password key categoriesData pwd = None) =
     (\<exists>e. decrypt_fields key categoriesData pwd = Inl e)"
  by (simp add: decrypt_password_def split: sum.splits)

lemma decrypt_fields_fails:
  "(\<exists>e. decrypt_fields key categoriesData pwd = Inl e) =
     ((\<exists>e. decryptData (pw_title pwd) key = Inl e) \<or>
      (\<exists>e. decryptData (pw_username pwd) key = Inl e) \<or>
      (\<exists>e. decryptData (pw_password pwd) key = Inl e) \<or>
      (\<exists>e. decrypt_optional (pw_url pwd) key = Inl e) \<or>
      (\<exists>e. decrypt_optional (pw_notes pwd) key = Inl e))"
  by (auto simp: decrypt_fields_def then_result_def split: sum.splits)

lemma decrypt_optional_fails:
  "(\<exists>e. decrypt_optional field key = Inl e) =
     (\<exists>v. field = Some v \<and> v \<noteq> [] \<and> (\<exists>e. decryptData v key = Inl e))"
  by (cases field; cases "decryptData (the field) key")
    (auto simp: decrypt_optional_def truthy_def)

lemma decryptData_envelope_of:
  "isWellFormed s \<Longrightarrow> \<not> starts_with_bom s \<Longrightarrow> decryptData (envelope_of s k rng) k = Inr s"
  using roundtrip_text [of s k rng] TextDecoder_roundtrip [of s]
  by (simp add: envelope_of_def encryptData_eq then_result_Inr)

lemma decrypt_stored_password:
  assumes "decryptData t [0x6B, 0x65, 0x79] = Inr t'"
  shows "decrypt_password [0x6B, 0x65, 0x79] None (stored_password ident t) =
         Some (shown_password ident t')"
proof -
  have u: "decryptData (envelope_of [0x62, 0x6F, 0x62] [0x6B, 0x65, 0x79] counting_entropy)
      [0x6B, 0x65, 0x79] = Inr [0x62, 0x6F, 0x62]"
    by (rule decryptData_envelope_of)
      (simp_all add: is_high_surrogate_def is_low_surrogate_def starts_with_bom_def)
  have p: "decryptData (envelope_of [0x68, 0x75, 0x6E, 0x74, 0x65, 0x72, 0x32] [0x6B, 0x65, 0x79]
      counting_entropy) [0x6B, 0x65, 0x79] = Inr [0x68, 0x75, 0x6E, 0x74, 0x65, 0x72, 0x32]"
    by (rule decryptData_envelope_of)
      (simp_all add: is_high_surrogate_def is_low_surrogate_def starts_with_bom_def)
  show ?thesis
    using assms u p
    by (simp add: decrypt_password_def decrypt_fields_def stored_password_def
        shown_password_def then_result_def decrypt_optional_def truthy_def find_category_def)
qed

section \<open>Properties of the inactivity timer\<close>

lemma run_until_idle: "interval_due s = None \<Longrightarrow> run_until target s = s"
  by (simp add: run_until.simps)

lemma run_until_later: "interval_due s = Some d \<Longrightarrow> target < d \<Longrightarrow> run_until target s = s"
  by (simp add: run_until.simps)

lemma run_until_due:
  "interval_due s = Some d \<Longrightarrow> d \<le> target \<Longrightarrow>
   run_until target s = run_until target (interval_tick d s)"
  by (subst run_until.simps) simp

lemma interval_tick_quiet:
  "d - lastActivity s \<le> 30000 \<Longrightarrow> interval_tick d s = s\<lparr>interval_due := Some (d + 1000)\<rparr>"
  by (simp add: interval_tick_def Let_def)

lemma interval_tick_expired:
  "isAuthenticated s \<Longrightarrow> 30000 < d - lastActivity s \<Longrightarrow>
   interval_tick d s = s\<lparr>userId := None, masterKey := None, interval_due := None\<rparr>"
  by (simp add: interval_tick_def Let_def logout_def commit_def timeout_effect_def
      isAuthenticated_def truthy_def)

lemma aligned_cases:
  fixes d L :: int
  assumes "(d - L) mod 1000 = 0" "L < d" "d \<le> L + 31000"
  shows "d \<le> L + 30000 \<or> d = L + 31000"
proof -
  from assms(1) obtain q where q: "d - L = 1000 * q" by (auto simp: mod_eq_0_iff_dvd)
  then have "q \<le> 30 \<or> q = 31" using assms(3) by linarith
  then show ?thesis using q by linarith
qed

lemma aligned_next:
  fixes d L :: int
  shows "(d - L) mod 1000 = 0 \<Longrightarrow> (d + 1000 - L) mod 1000 = 0"
proof -
  assume a: "(d - L) mod 1000 = 0"
  have "d + 1000 - L = (d - L) + 1000" by simp
  then show ?thesis using a by (simp only: mod_add_self2)
qed

lemma run_until_expired:
  assumes "isAuthenticated s" "interval_due s = Some d" "lastActivity s < d"
    "d \<le> lastActivity s + 31000" "(d - lastActivity s) mod 1000 = 0"
    "lastActivity s + 31000 \<le> target"
  shows "run_until target s = s\<lparr>userId := None, masterKey := None, interval_due := None\<rparr>"
  using assms
proof (induction target s arbitrary: d rule: run_until.induct)
  case (1 target s)
  have due: "d \<le> target" using "1.prems" by linarith
  note step = run_until_due [OF "1.prems"(2) due]
  from aligned_cases [OF "1.prems"(5,3,4)] show ?case
  proof
    assume q: "d \<le> lastActivity s + 30000"
    then have t: "interval_tick d s = s\<lparr>interval_due := Some (d + 1000)\<rparr>"
      by (intro interval_tick_quiet) simp
    have "run_until target (interval_tick d s) =
        (interval_tick d s)\<lparr>userId := None, masterKey := None, interval_due := None\<rparr>"
    proof (rule "1.IH" [OF "1.prems"(2) due])
      show "isAuthenticated (interval_tick d s)"
        using "1.prems"(1) by (simp add: t isAuthenticated_def)
      show "interval_due (interval_tick d s) = Some (d + 1000)" by (simp add: t)
      show "lastActivity (interval_tick d s) < d + 1000" using "1.prems"(3) by (simp add: t)
      show "d + 1000 \<le> lastActivity (interval_tick d s) + 31000" using q by (simp add: t)
      show "(d + 1000 - lastActivity (interval_tick d s)) mod 1000 = 0"
        using aligned_next [OF "1.prems"(5)] by (simp add: t)
      show "lastActivity (interval_tick d s) + 31000 \<le> target" using "1.prems"(6) by (simp add: t)
    qed
    then show ?thesis unfolding step by (simp add: t)
  next
    assume q: "d = lastActivity s + 31000"
    then have t: "interval_tick d s = s\<lparr>userId := None, masterKey := None, interval_due := None\<rparr>"
      using "1.prems"(1) by (intro interval_tick_expired) simp_all
    show ?thesis unfolding step t by (rule run_until_idle) simp
  qed
qed

lemma run_until_alive:
  assumes "interval_due s = Some d" "lastActivity s < d"
    "d \<le> lastActivity s + 31000" "(d - lastActivity s) mod 1000 = 0"
    "target < lastActivity s + 31000"
  shows "\<exists>d'. run_until target s = s\<lparr>interval_due := Some d'\<rparr>"
  using assms
proof (induction target s arbitrary: d rule: run_until.induct)
  case (1 target s)
  show ?case
  proof (cases "d \<le> target")
    case False
    then have "target < d" by simp
    then have "run_until target s = s" by (rule run_until_later [OF "1.prems"(1)])
    then show ?thesis using "1.prems"(1) by (intro exI [of _ d]) simp
  next
    case True
    note step = run_until_due [OF "1.prems"(1) True]
    from aligned_cases [OF "1.prems"(4,2,3)] True "1.prems"(5)
    have q: "d \<le> lastActivity s + 30000" by linarith
    then have t: "interval_tick d s = s\<lparr>interval_due := Some (d + 1000)\<rparr>"
      by (intro interval_tick_quiet) simp
    have "\<exists>d'. run_until target (interval_tick d s) = (interval_tick d s)\<lparr>interval_due := Some d'\<rparr>"
    proof (rule "1.IH" [OF "1.prems"(1) True])
      show "interval_due (interval_tick d s) = Some (d + 1000)" by (simp add: t)
      show "lastActivity (interval_tick d s) < d + 1000" using "1.prems"(2) by (simp add: t)
      show "d + 1000 \<le> lastActivity (interval_tick d s) + 31000" using q by (simp add: t)
      show "(d + 1000 - lastActivity (interval_tick d s)) mod 1000 = 0"
        using aligned_next [OF "1.prems"(4)] by (simp add: t)
      show "target < lastActivity (interval_tick d s) + 31000" using "1.prems"(5) by (simp add: t)
    qed
    then show ?thesis unfolding step by (simp add: t)
  qed
qed

lemma login_state:
  assumes "\<not> isAuthenticated s0" "key \<noteq> []" "ident \<noteq> []"
  shows "login key ident T0 s0 =
     s0\<lparr>userId := Some ident, masterKey := Some key, lastActivity := T0,
        interval_due := Some (T0 + 1000)\<rparr>"
  using assms
  by (auto simp: login_def commit_def timeout_effect_def isAuthenticated_def truthy_def)

lemma handleActivity_state:
  assumes "isAuthenticated s" "lastActivity s \<noteq> now"
  shows "handleActivity now s = s\<lparr>lastActivity := now, interval_due := Some (now + 1000)\<rparr>"
  using assms
  by (simp add: handleActivity_def commit_def timeout_effect_def isAuthenticated_def)

section \<open>The claims\<close>

subsection \<open>C1: round trip\<close>

text \<open>
  Claim C1 says that for every string \<open>s\<close> and master key \<open>k\<close>, decrypting the envelope
  of \<open>s\<close> under \<open>k\<close> with \<open>k\<close> gives back \<open>s\<close>. The ciphertext layer does give back
  the bytes it was given, but the text layer of \<^verbatim>\<open>crypto.ts\<close> is
  \<^verbatim>\<open>new TextEncoder().encode\<close> going in and \<^verbatim>\<open>new TextDecoder().decode\<close> coming out:
  an unpaired surrogate is encoded as U+FFFD, and a leading U+FEFF is dropped by the
  decoder. As amended, C1 holds for every well-formed string that does not start with
  U+FEFF, the empty string included: with any master key and any random salt and nonce,
  decryption of the envelope returns exactly the string that was encrypted.
\<close>

theorem C1_roundtrip:
  assumes "isWellFormed s" and "\<not> starts_with_bom s"
  shows "then_result (fst (encryptData s k rng)) (\<lambda>e. decryptData e k) = Inr s"
  using assms by (simp add: roundtrip_text TextDecoder_roundtrip)

text \<open>The scenario of the specification, \<^verbatim>\<open>"hunter2"\<close>, and the empty string.\<close>

theorem C1_roundtrip_witness:
  "isWellFormed [0x68, 0x75, 0x6E, 0x74, 0x65, 0x72, 0x32] \<and>
   \<not> starts_with_bom [0x68, 0x75, 0x6E, 0x74, 0x65, 0x72, 0x32] \<and>
   then_result (fst (encryptData [0x68, 0x75, 0x6E, 0x74, 0x65, 0x72, 0x32] [0x6B, 0x65, 0x79]
       counting_entropy)) (\<lambda>e. decryptData e [0x6B, 0x65, 0x79]) =
     Inr [0x68, 0x75, 0x6E, 0x74, 0x65, 0x72, 0x32] \<and>
   then_result (fst (encryptData [] [0x6B, 0x65, 0x79] counting_entropy))
     (\<lambda>e. decryptData e [0x6B, 0x65, 0x79]) = Inr []"
proof -
  have wf: "isWellFormed [0x68, 0x75, 0x6E, 0x74, 0x65, 0x72, 0x32]"
    by (simp add: is_high_surrogate_def is_low_surrogate_def)
  have nb: "\<not> starts_with_bom [0x68, 0x75, 0x6E, 0x74, 0x65, 0x72, 0x32]"
    by (simp add: starts_with_bom_def)
  have e: "isWellFormed []" "\<not> starts_with_bom []" by (simp_all add: starts_with_bom_def)
  show ?thesis
    using wf nb C1_roundtrip [OF wf nb, of "[0x6B, 0x65, 0x79]" counting_entropy]
      C1_roundtrip [OF e, of "[0x6B, 0x65, 0x79]" counting_entropy]
    by simp
qed

text \<open>C1 as stated fails at the one-character string U+FEFF: it is encrypted, and what
  comes back is the empty string.\<close>

theorem C1_counterexample:
  "fst (encryptData [0xFEFF] [0x6B, 0x65, 0x79] counting_entropy) =
     Inr (envelope_of [0xFEFF] [0x6B, 0x65, 0x79] counting_entropy) \<and>
   decryptData (envelope_of [0xFEFF] [0x6B, 0x65, 0x79] counting_entropy) [0x6B, 0x65, 0x79] =
     Inr [] \<and>
   decryptData (envelope_of [0xFEFF] [0x6B, 0x65, 0x79] counting_entropy) [0x6B, 0x65, 0x79] \<noteq>
     Inr [0xFEFF]"
proof -
  have "decryptData (envelope_of [0xFEFF] [0x6B, 0x65, 0x79] counting_entropy)
      [0x6B, 0x65, 0x79] = Inr []"
    unfolding decryptData_envelope_of_eq roundtrip_text
    by (simp add: TextDecoder_decode_TextEncoder_encode scalar_of_unit_bom skip_bom_def)
  then show ?thesis by (simp add: envelope_of_eq)
qed

subsection \<open>C2: the envelope\<close>

text \<open>
  Claim C2: the output of \<^verbatim>\<open>encryptData\<close> is \<^verbatim>\<open>btoa\<close> of the bytes
  salt, then nonce, then ciphertext and tag, that is their base64 encoding; the salt has
  16 bytes and the nonce 12. \<^verbatim>\<open>decryptData\<close> decodes the base64 text and reads the first
  16 bytes as salt, the next 12 as nonce and what remains as ciphertext and tag; on an
  envelope laid out by \<^verbatim>\<open>encryptData\<close> these are the salt, the nonce and the rest.
\<close>

theorem C2_envelope_format:
  "fst (encryptData s k rng) =
     btoa (map fromCharCode (drawn_salt rng @ drawn_iv rng @
       gcm_encrypt (deriveKey k (map fromCharCode (drawn_salt rng))) (drawn_iv rng)
         (TextEncoder_encode s))) \<and>
   fst (encryptData s k rng) =
     Inr (base64_encode (drawn_salt rng @ drawn_iv rng @
       gcm_encrypt (deriveKey k (map fromCharCode (drawn_salt rng))) (drawn_iv rng)
         (TextEncoder_encode s))) \<and>
   length (drawn_salt rng) = 16 \<and> length (drawn_iv rng) = 12 \<and>
   decryptData e k' =
     then_result (atob e) (\<lambda>binary.
       then_result
         (gcm_decrypt (deriveKey k' (map fromCharCode (take 16 (map charCodeAt0 binary))))
            (take 12 (drop 16 (map charCodeAt0 binary))) (drop 28 (map charCodeAt0 binary)))
         (\<lambda>decryptedData. Inr (TextDecoder_decode decryptedData))) \<and>
   decryptData (base64_encode bs) k' =
     then_result (gcm_decrypt (deriveKey k' (map fromCharCode (take 16 bs)))
                    (take 12 (drop 16 bs)) (drop 28 bs))
       (\<lambda>decryptedData. Inr (TextDecoder_decode decryptedData)) \<and>
   decryptData (base64_encode (drawn_salt rng @ drawn_iv rng @ rest)) k' =
     then_result (gcm_decrypt (deriveKey k' (map fromCharCode (drawn_salt rng)))
                    (drawn_iv rng) rest)
       (\<lambda>decryptedData. Inr (TextDecoder_decode decryptedData))"
proof -
  have "decryptData e k' =
     then_result (atob e) (\<lambda>binary.
       then_result
         (gcm_decrypt (deriveKey k' (map fromCharCode (take 16 (map charCodeAt0 binary))))
            (take 12 (drop 16 (map charCodeAt0 binary))) (drop 28 (map charCodeAt0 binary)))
         (\<lambda>decryptedData. Inr (TextDecoder_decode decryptedData)))"
    by (simp add: decryptData_def Let_def)
  then show ?thesis
    by (simp add: encryptData_eq btoa_fromCharCode length_drawn decryptData_base64_encode
        decryptData_envelope del: map_append)
qed

subsection \<open>C10: the length of an envelope\<close>

text \<open>
  Claim C10: the base64-decoded output of \<^verbatim>\<open>encryptData(s, k)\<close> has exactly 44 bytes
  more than the UTF-8 encoding of \<open>s\<close>: 16 of salt, 12 of nonce, a ciphertext as long as
  the plaintext and a tag of 16 (the output of AES-GCM is the counter-mode ciphertext
  followed by the tag). So every envelope decodes to at least 44 bytes, and the envelope
  of the empty string to exactly 44.
\<close>

theorem C10_envelope_length:
  "map_sum id length (then_result (fst (encryptData s k rng)) atob) =
     Inr (44 + length (TextEncoder_encode s)) \<and>
   map_sum id length (then_result (fst (encryptData [] k rng)) atob) = Inr 44 \<and>
   length (drawn_salt rng) = 16 \<and> length (drawn_iv rng) = 12 \<and>
   length (gcm_encrypt (deriveKey k (map fromCharCode (drawn_salt rng))) (drawn_iv rng)
      (TextEncoder_encode s)) = length (TextEncoder_encode s) + 16 \<and>
   gcm_encrypt K iv P =
     GCTR K (inc32 (gcm_J0 (CIPH K 0) iv)) P @
     gcm_tag K iv [] (GCTR K (inc32 (gcm_J0 (CIPH K 0) iv)) P) \<and>
   length (GCTR K (inc32 (gcm_J0 (CIPH K 0) iv)) P) = length P \<and>
   length (gcm_tag K iv [] (GCTR K (inc32 (gcm_J0 (CIPH K 0) iv)) P)) = 16"
proof -
  have "map_sum id length (then_result (fst (encryptData s k rng)) atob) =
     Inr (44 + length (TextEncoder_encode s))" for s
    by (simp add: encryptData_eq then_result_Inr atob_base64_encode length_drawn
        length_gcm_encrypt)
  from this [of s] this [of "[]"] show ?thesis
    by (simp add: length_drawn length_gcm_encrypt TextEncoder_encode_def length_GCTR
        length_gcm_tag gcm_encrypt_def Let_def)
qed

subsection \<open>C4: the hash of the master key\<close>

text \<open>
  Claim C4: \<^verbatim>\<open>hashMasterKey(k)\<close> is a function of \<open>k\<close> alone (it reads no clock, no
  entropy and no state, so two calls with the same \<open>k\<close> agree), and its result is the
  SHA-256 digest of the UTF-8 bytes of \<open>k\<close> written as two lowercase hexadecimal digits per
  byte: 64 characters, each one of \<^verbatim>\<open>0-9\<close> or \<^verbatim>\<open>a-f\<close>.
\<close>

theorem C4_hashMasterKey:
  "hashMasterKey k =
     concat (map (\<lambda>b. [hex_digit (unat b div 16), hex_digit (unat b mod 16)])
       (sha256 (TextEncoder_encode k))) \<and>
   length (sha256 (TextEncoder_encode k)) = 32 \<and>
   length (hashMasterKey k) = 64 \<and>
   list_all is_lower_hex (hashMasterKey k)"
proof -
  have d: "unat b div 16 < 16" for b :: byte
    using unat_byte_less [of b] by simp
  have "list_all is_lower_hex (hashMasterKey k)"
    unfolding hashMasterKey_hex list_all_concat_pairs
    by (simp add: list_all_iff hex_digit_lower d)
  then show ?thesis
    by (simp add: hashMasterKey_hex [symmetric] length_sha256)
      (simp add: hashMasterKey_hex length_concat_pairs length_sha256)
qed

subsection \<open>C9: the salt that reaches PBKDF2\<close>

text \<open>
  Claim C9: in \<^verbatim>\<open>encryptData\<close> and in \<^verbatim>\<open>decryptData\<close> the salt handed to PBKDF2 is the
  UTF-8 encoding of the string whose code units are the 16 salt bytes, not the bytes
  themselves. Both functions build it by the same expression, so decryption derives its
  key from the same salt as encryption did. Every salt byte from \<open>0x80\<close> up takes two
  bytes in that encoding: the salt of PBKDF2 then is longer than the stored salt, and
  differs from it.
\<close>

theorem C9_effective_salt:
  "deriveKey k (map fromCharCode salt) =
     pbkdf2_hmac_sha256 (TextEncoder_encode k) (TextEncoder_encode (map fromCharCode salt))
       100000 32 \<and>
   fst (encryptData s k rng) =
     Inr (base64_encode (drawn_salt rng @ drawn_iv rng @
       gcm_encrypt
         (pbkdf2_hmac_sha256 (TextEncoder_encode k)
            (TextEncoder_encode (map fromCharCode (drawn_salt rng))) 100000 32)
         (drawn_iv rng) (TextEncoder_encode s))) \<and>
   decryptData (base64_encode (drawn_salt rng @ drawn_iv rng @ rest)) k =
     then_result
       (gcm_decrypt
          (pbkdf2_hmac_sha256 (TextEncoder_encode k)
             (TextEncoder_encode (map fromCharCode (drawn_salt rng))) 100000 32)
          (drawn_iv rng) rest)
       (\<lambda>decryptedData. Inr (TextDecoder_decode decryptedData)) \<and>
   length (TextEncoder_encode (map fromCharCode salt)) =
     length salt + length (filter (\<lambda>b. 0x80 \<le> b) salt) \<and>
   (TextEncoder_encode (map fromCharCode salt) = salt) = list_all (\<lambda>b. b < 0x80) salt \<and>
   (\<not> list_all (\<lambda>b. b < 0x80) salt \<longrightarrow>
      length salt < length (TextEncoder_encode (map fromCharCode salt)) \<and>
      TextEncoder_encode (map fromCharCode salt) \<noteq> salt)"
proof -
  have d: "deriveKey k (map fromCharCode salt) =
     pbkdf2_hmac_sha256 (TextEncoder_encode k) (TextEncoder_encode (map fromCharCode salt))
       100000 32" for salt
    by (simp add: deriveKey_def)
  have longer: "length salt < length (TextEncoder_encode (map fromCharCode salt))"
    if "\<not> list_all (\<lambda>b. b < 0x80) salt"
  proof -
    from that obtain b where "b \<in> set salt" "0x80 \<le> b"
      by (auto simp: list_all_iff not_less)
    then have "filter (\<lambda>b. 0x80 \<le> b) salt \<noteq> []"
      by (auto simp: filter_empty_conv)
    then show ?thesis unfolding length_effective_salt by simp
  qed
  show ?thesis
    using longer
    by (simp add: d [symmetric] encryptData_eq decryptData_envelope length_drawn
        length_effective_salt effective_salt_eq_iff)
qed

text \<open>A salt of fifteen zero bytes and one \<open>0xFF\<close> reaches PBKDF2 as 17 bytes.\<close>

theorem C9_effective_salt_witness:
  "\<not> list_all (\<lambda>b. b < 0x80) (replicate 15 0 @ [0xFF :: byte]) \<and>
   length (replicate 15 0 @ [0xFF :: byte]) <
     length (TextEncoder_encode (map fromCharCode (replicate 15 0 @ [0xFF]))) \<and>
   TextEncoder_encode (map fromCharCode (replicate 15 0 @ [0xFF])) \<noteq> replicate 15 0 @ [0xFF] \<and>
   length (TextEncoder_encode (map fromCharCode (replicate 15 0 @ [0xFF]))) = 17"
proof -
  have h: "\<not> list_all (\<lambda>b. b < 0x80) (replicate 15 0 @ [0xFF :: byte])" by simp
  show ?thesis
    using h C9_effective_salt [of "[]" "replicate 15 0 @ [0xFF]" "[]" counting_entropy "[]"]
    by simp
qed

subsection \<open>C3: decrypting with another master key\<close>




subsection \<open>C5: malformed envelopes\<close>

text \<open>
  Claim C5 says that a malformed envelope, of the wrong length or not base64, fails with a
  validation error before decryption is attempted, distinct from the error of a failed tag
  check. \<^verbatim>\<open>decryptData\<close> validates nothing itself. Its first step is \<^verbatim>\<open>atob\<close>, and its next
  steps slice whatever was decoded. As amended, C5 reads: an input that \<^verbatim>\<open>atob\<close> rejects
  fails with \<open>InvalidCharacterError\<close>, whatever the master key, and that is the only way
  \<^verbatim>\<open>decryptData\<close> fails with this error, which is not the \<open>OperationError\<close> of
  authenticated decryption; an input that is base64 but decodes to fewer than 44 bytes
  is not rejected up front: it fails with \<open>OperationError\<close>, as a failed tag check does.
\<close>

theorem C5_malformed_envelope:
  "(atob e = Inl err \<longrightarrow> decryptData e k = Inl InvalidCharacterError) \<and>
   (decryptData e k = Inl InvalidCharacterError) = (atob e = Inl InvalidCharacterError) \<and>
   (atob e = Inr bin \<and> length bin < 44 \<longrightarrow> decryptData e k = Inl OperationError) \<and>
   InvalidCharacterError \<noteq> OperationError"
  using decryptData_atob_error [of e err k] decryptData_invalid_iff [of e k]
    decryptData_short [of e bin k]
  by simp

text \<open>The text \<^verbatim>\<open>"!"\<close> is not base64; \<^verbatim>\<open>"AAAA"\<close> is, and decodes to three bytes.\<close>

theorem C5_malformed_envelope_witness:
  "atob [0x21] = Inl InvalidCharacterError \<and>
   decryptData [0x21] [0x6B, 0x65, 0x79] = Inl InvalidCharacterError \<and>
   atob [0x41, 0x41, 0x41, 0x41] = Inr [0, 0, 0] \<and> length [0, 0, 0 :: code_unit] < 44 \<and>
   decryptData [0x41, 0x41, 0x41, 0x41] [0x6B, 0x65, 0x79] = Inl OperationError"
proof -
  note T1 = C5_malformed_envelope [where e = "[0x21]" and err = InvalidCharacterError
      and k = "[0x6B, 0x65, 0x79]"]
  note T2 = C5_malformed_envelope [where e = "[0x41, 0x41, 0x41, 0x41]" and bin = "[0, 0, 0]"
      and k = "[0x6B, 0x65, 0x79]"]
  have 1: "decryptData [0x21] [0x6B, 0x65, 0x79] = Inl InvalidCharacterError"
    using T1 atob_bang by blast
  have l: "length [0, 0, 0 :: code_unit] < 44" by simp
  have 2: "decryptData [0x41, 0x41, 0x41, 0x41] [0x6B, 0x65, 0x79] = Inl OperationError"
    using T2 atob_AAAA l by blast
  show ?thesis using atob_bang atob_AAAA 1 2 l by blast
qed

text \<open>C5 as stated fails for the envelopes \<^verbatim>\<open>"AAAA"\<close> and \<^verbatim>\<open>""\<close>: both have the wrong
  length, and both fail with the error of authenticated decryption.\<close>

theorem C5_counterexample:
  "decryptData [0x41, 0x41, 0x41, 0x41] [0x6B, 0x65, 0x79] = Inl OperationError \<and>
   decryptData [] [0x6B, 0x65, 0x79] = Inl OperationError"
proof -
  have "atob [] = Inr []" by (simp add: atob_def strip_padding_def)
  then show ?thesis
    using decryptData_short [OF atob_AAAA] decryptData_short [of "[]" "[]"] by simp
qed

subsection \<open>C6: verification of a candidate master key\<close>



subsection \<open>C8: one unreadable record\<close>

text \<open>
  Claim C8: when \<^verbatim>\<open>loadData\<close> loads the vault of a signed-in user, a record one of whose
  fields fails to decrypt is left out, and only that record: the records before it and
  after it are returned as they would be without it, in their order, every record that
  decrypts is in the result, and the load runs to its end (\<^verbatim>\<open>loading\<close> is reset). A record
  is left out exactly when the decryption of its title, user name or password fails, or
  that of a non-empty URL or note.
\<close>

theorem C8_partial_failure:
  assumes "truthy (userId auth)" "masterKey auth = Some key" "key \<noteq> []"
  shows
    "passwords (loadData auth categoriesData (Some (before @ pwd # after)) st) =
       passwords (loadData auth categoriesData (Some before) st) @
       (case decrypt_password key categoriesData pwd of None \<Rightarrow> [] | Some d \<Rightarrow> [d]) @
       passwords (loadData auth categoriesData (Some after) st) \<and>
     set (passwords (loadData auth categoriesData (Some rows) st)) =
       {d. \<exists>p. p \<in> set rows \<and> decrypt_password key categoriesData p = Some d} \<and>
     loading (loadData auth categoriesData (Some rows) st) = False \<and>
     (decrypt_password key categoriesData pwd = None) =
       ((\<exists>e. decryptData (pw_title pwd) key = Inl e) \<or>
        (\<exists>e. decryptData (pw_username pwd) key = Inl e) \<or>
        (\<exists>e. decryptData (pw_password pwd) key = Inl e) \<or>
        (\<exists>v e. pw_url pwd = Some v \<and> v \<noteq> [] \<and> decryptData v key = Inl e) \<or>
        (\<exists>v e. pw_notes pwd = Some v \<and> v \<noteq> [] \<and> decryptData v key = Inl e))"
proof -
  note P = loadData_passwords [OF assms]
  have 1: "passwords (loadData auth categoriesData (Some (before @ pwd # after)) st) =
       passwords (loadData auth categoriesData (Some before) st) @
       (case decrypt_password key categoriesData pwd of None \<Rightarrow> [] | Some d \<Rightarrow> [d]) @
       passwords (loadData auth categoriesData (Some after) st)"
    unfolding P by (simp split: option.splits)
  have 2: "set (passwords (loadData auth categoriesData (Some rows) st)) =
       {d. \<exists>p. p \<in> set rows \<and> decrypt_password key categoriesData p = Some d}"
    unfolding P by (auto simp: image_iff) force
  have 4: "(decrypt_password key categoriesData pwd = None) =
       ((\<exists>e. decryptData (pw_title pwd) key = Inl e) \<or>
        (\<exists>e. decryptData (pw_username pwd) key = Inl e) \<or>
        (\<exists>e. decryptData (pw_password pwd) key = Inl e) \<or>
        (\<exists>v e. pw_url pwd = Some v \<and> v \<noteq> [] \<and> decryptData v key = Inl e) \<or>
        (\<exists>v e. pw_notes pwd = Some v \<and> v \<noteq> [] \<and> decryptData v key = Inl e))"
    unfolding decrypt_password_None decrypt_fields_fails decrypt_optional_fails by blast
  show ?thesis using 1 2 P(2) 4 by blast
qed

text \<open>Three stored records, the second with the title \<^verbatim>\<open>"AAAA"\<close>, which is no envelope:
  the first and the third are shown.\<close>

theorem C8_partial_failure_witness:
  "truthy (userId open_session) \<and> masterKey open_session = Some [0x6B, 0x65, 0x79] \<and>
   [0x6B, 0x65, 0x79] \<noteq> ([] :: js_string) \<and>
   decrypt_password [0x6B, 0x65, 0x79] None (stored_password [0x32] [0x41, 0x41, 0x41, 0x41]) = None \<and>
   passwords (loadData open_session None
       (Some ([stored_password [0x31] (envelope_of [0x61] [0x6B, 0x65, 0x79] counting_entropy)] @
              stored_password [0x32] [0x41, 0x41, 0x41, 0x41] #
              [stored_password [0x33] (envelope_of [0x63] [0x6B, 0x65, 0x79] counting_entropy)]))
       empty_dashboard) =
     [shown_password [0x31] [0x61], shown_password [0x33] [0x63]] \<and>
   loading (loadData open_session None
       (Some ([stored_password [0x31] (envelope_of [0x61] [0x6B, 0x65, 0x79] counting_entropy)] @
              stored_password [0x32] [0x41, 0x41, 0x41, 0x41] #
              [stored_password [0x33] (envelope_of [0x63] [0x6B, 0x65, 0x79] counting_entropy)]))
       empty_dashboard) = False"
proof -
  let ?k = "[0x6B, 0x65, 0x79] :: js_string"
  let ?r1 = "stored_password [0x31] (envelope_of [0x61] ?k counting_entropy)"
  let ?r2 = "stored_password [0x32] [0x41, 0x41, 0x41, 0x41]"
  let ?r3 = "stored_password [0x33] (envelope_of [0x63] ?k counting_entropy)"
  have h: "truthy (userId open_session)" "masterKey open_session = Some ?k" "?k \<noteq> []"
    by (simp_all add: open_session_def truthy_def)
  note T = C8_partial_failure [OF h, where categoriesData = None and st = empty_dashboard]
  have d1: "decrypt_password ?k None ?r1 = Some (shown_password [0x31] [0x61])"
    by (rule decrypt_stored_password, rule decryptData_envelope_of)
      (simp_all add: is_high_surrogate_def is_low_surrogate_def starts_with_bom_def)
  have d3: "decrypt_password ?k None ?r3 = Some (shown_password [0x33] [0x63])"
    by (rule decrypt_stored_password, rule decryptData_envelope_of)
      (simp_all add: is_high_surrogate_def is_low_surrogate_def starts_with_bom_def)
  have "decryptData (pw_title ?r2) ?k = Inl OperationError"
    using decryptData_short [OF atob_AAAA] by (simp add: stored_password_def)
  then have d2: "decrypt_password ?k None ?r2 = None"
    using T [where pwd = ?r2] by blast
  have e: "passwords (loadData open_session None (Some []) empty_dashboard) = []"
    using T [where rows = "[]"] by simp
  have p1: "passwords (loadData open_session None (Some [?r1]) empty_dashboard) =
      [shown_password [0x31] [0x61]]"
    using T [where before = "[]" and pwd = ?r1 and after = "[]"] d1 e by simp
  have p3: "passwords (loadData open_session None (Some [?r3]) empty_dashboard) =
      [shown_password [0x33] [0x63]]"
    using T [where before = "[]" and pwd = ?r3 and after = "[]"] d3 e by simp
  have p: "passwords (loadData open_session None (Some ([?r1] @ ?r2 # [?r3])) empty_dashboard) =
      [shown_password [0x31] [0x61], shown_password [0x33] [0x63]]"
    using T [where before = "[?r1]" and pwd = ?r2 and after = "[?r3]"] d2 p1 p3
    by (simp del: append.simps)
  have l: "loading (loadData open_session None (Some ([?r1] @ ?r2 # [?r3])) empty_dashboard) = False"
    using T [where rows = "[?r1] @ ?r2 # [?r3]"] by blast
  show ?thesis using h d2 p l by blast
qed

subsection \<open>C7: the inactivity timeout\<close>

text \<open>
  Claim C7: after a login, if no activity event occurs for 31 seconds the session is no
  longer authenticated and the master key held in memory is \<^verbatim>\<open>null\<close>; an activity event at
  second 29 resets the clock, and the session stays authenticated past the 30-second mark.
  Time is in milliseconds and \<open>run_until\<close> fires the one-second interval on schedule. A
  login at \<open>T0\<close> into a signed-out session is followed by ticks at \<open>T0 + 1000\<close>,
  \<open>T0 + 2000\<close>, ...; the tick at \<open>T0 + 31000\<close> is the first that sees more than 30000 ms
  of inactivity, so the session is authenticated at every instant before \<open>T0 + 31000\<close> and
  signed out, with the master key cleared, from then on. With an activity event at
  \<open>T0 + 29000\<close> the interval starts again from there: the session is authenticated at
  every instant before \<open>T0 + 60000\<close>, the 30-second and 31-second marks included, and signed
  out from \<open>T0 + 60000\<close> on.
\<close>

theorem C7_session_timeout:
  fixes T0 t :: int and s0 :: session and key ident :: js_string
  assumes "\<not> isAuthenticated s0" "key \<noteq> []" "ident \<noteq> []"
  defines "s1 \<equiv> login key ident T0 s0"
  defines "s2 \<equiv> handleActivity (T0 + 29000) (run_until (T0 + 29000) s1)"
  shows "isAuthenticated s1 \<and> masterKey s1 = Some key \<and>
     (T0 + 31000 \<le> t \<longrightarrow>
        \<not> isAuthenticated (run_until t s1) \<and> masterKey (run_until t s1) = None) \<and>
     (t < T0 + 31000 \<longrightarrow>
        isAuthenticated (run_until t s1) \<and> masterKey (run_until t s1) = Some key) \<and>
     (T0 + 29000 \<le> t \<and> t < T0 + 60000 \<longrightarrow>
        isAuthenticated (run_until t s2) \<and> masterKey (run_until t s2) = Some key) \<and>
     (T0 + 60000 \<le> t \<longrightarrow>
        \<not> isAuthenticated (run_until t s2) \<and> masterKey (run_until t s2) = None)"
proof -
  have s1: "s1 = s0\<lparr>userId := Some ident, masterKey := Some key, lastActivity := T0,
        interval_due := Some (T0 + 1000)\<rparr>"
    unfolding s1_def by (rule login_state [OF assms(1-3)])
  have a1: "isAuthenticated s1" "masterKey s1 = Some key" "lastActivity s1 = T0"
    "interval_due s1 = Some (T0 + 1000)"
    using assms(2,3) by (simp_all add: s1 isAuthenticated_def truthy_def)
  have out1: "\<not> isAuthenticated (run_until t s1) \<and> masterKey (run_until t s1) = None"
    if "T0 + 31000 \<le> t"
  proof -
    have "run_until t s1 = s1\<lparr>userId := None, masterKey := None, interval_due := None\<rparr>"
      by (rule run_until_expired [OF a1(1) a1(4)]) (use that in \<open>simp_all add: a1\<close>)
    then show ?thesis by (simp add: isAuthenticated_def truthy_def)
  qed
  have alive1: "\<exists>d'. run_until t s1 = s1\<lparr>interval_due := Some d'\<rparr>" if "t < T0 + 31000" for t
    by (rule run_until_alive [OF a1(4)]) (use that in \<open>simp_all add: a1\<close>)
  have in1: "isAuthenticated (run_until t s1) \<and> masterKey (run_until t s1) = Some key"
    if "t < T0 + 31000"
    using alive1 [OF that] a1(1,2) by (auto simp: isAuthenticated_def)
  from alive1 [of "T0 + 29000"] obtain d' where
    r: "run_until (T0 + 29000) s1 = s1\<lparr>interval_due := Some d'\<rparr>" by auto
  have s2: "s2 = s1\<lparr>lastActivity := T0 + 29000, interval_due := Some (T0 + 30000)\<rparr>"
    unfolding s2_def r
    using a1 by (subst handleActivity_state) (simp_all add: isAuthenticated_def)
  have a2: "isAuthenticated s2" "masterKey s2 = Some key" "lastActivity s2 = T0 + 29000"
    "interval_due s2 = Some (T0 + 30000)"
    using a1 by (simp_all add: s2 isAuthenticated_def)
  have in2: "isAuthenticated (run_until t s2) \<and> masterKey (run_until t s2) = Some key"
    if "t < T0 + 60000"
  proof -
    have "\<exists>d'. run_until t s2 = s2\<lparr>interval_due := Some d'\<rparr>"
      by (rule run_until_alive [OF a2(4)]) (use that in \<open>simp_all add: a2\<close>)
    then show ?thesis using a2(1,2) by (auto simp: isAuthenticated_def)
  qed
  have out2: "\<not> isAuthenticated (run_until t s2) \<and> masterKey (run_until t s2) = None"
    if "T0 + 60000 \<le> t"
  proof -
    have "run_until t s2 = s2\<lparr>userId := None, masterKey := None, interval_due := None\<rparr>"
      by (rule run_until_expired [OF a2(1) a2(4)]) (use that in \<open>simp_all add: a2\<close>)
    then show ?thesis by (simp add: isAuthenticated_def truthy_def)
  qed
  show ?thesis using a1(1,2) out1 in1 in2 out2 by blast
qed

text \<open>A login at time 0 into the session as it is when the provider mounts.\<close>

theorem C7_session_timeout_witness:
  "\<not> isAuthenticated (initial_session 0) \<and> [0x6B, 0x65, 0x79] \<noteq> ([] :: js_string) \<and>
   [0x75] \<noteq> ([] :: js_string) \<and>
   isAuthenticated (login [0x6B, 0x65, 0x79] [0x75] 0 (initial_session 0)) \<and>
   isAuthenticated (run_until 30000 (login [0x6B, 0x65, 0x79] [0x75] 0 (initial_session 0))) \<and>
   \<not> isAuthenticated (run_until 31000 (login [0x6B, 0x65, 0x79] [0x75] 0 (initial_session 0))) \<and>
   masterKey (run_until 31000 (login [0x6B, 0x65, 0x79] [0x75] 0 (initial_session 0))) = None \<and>
   isAuthenticated (run_until 31000 (handleActivity 29000
     (run_until 29000 (login [0x6B, 0x65, 0x79] [0x75] 0 (initial_session 0))))) \<and>
   masterKey (run_until 31000 (handleActivity 29000
     (run_until 29000 (login [0x6B, 0x65, 0x79] [0x75] 0 (initial_session 0))))) =
     Some [0x6B, 0x65, 0x79]"
proof -
  have h: "\<not> isAuthenticated (initial_session 0)" "[0x6B, 0x65, 0x79] \<noteq> ([] :: js_string)"
    "[0x75] \<noteq> ([] :: js_string)"
    by (simp_all add: initial_session_def isAuthenticated_def truthy_def)
  note T = C7_session_timeout [OF h, where ?T0.0 = 0, simplified]
  show ?thesis
    using h T [where t = 30000] T [where t = 31000] by simp
qed

end
